theory Spec2Isabelle
  imports Complex_Main
begin

section \<open>Data model of the paginated execution engine\<close>

text \<open>
  The store's documents are JavaScript objects. An item and a cursor (the store's
  ``last evaluated key'') are attribute maps; the engine never looks inside them, so they
  are association lists from attribute names to values. A field that may be missing from
  a JavaScript object is an \<open>option\<close>: \<open>None\<close> is \<open>undefined\<close> (or \<open>null\<close>).
  An object is always truthy in JavaScript, so \<open>if (resp.LastEvaluatedKey)\<close> is the
  test \<open>LastEvaluatedKey resp \<noteq> None\<close>.

  JavaScript's numbers are IEEE doubles: their addition rounds, and \<open>NaN\<close>, the
  infinities and the two zeros are numbers too. The engine only adds numbers and tests
  them, so the type of numbers \<open>'n\<close> and these operations are parameters of the model:
  \<open>jsPlus\<close> is \<open>+\<close> on numbers, \<open>jsZero\<close> the literal \<open>0\<close>, \<open>jsTruthy x\<close> the
  truth value of \<open>x\<close> (false for the zeros and \<open>NaN\<close>), and \<open>jsIsZero x\<close> the test
  \<open>x === 0\<close>. Nothing is assumed about them.
\<close>

type_synonym item = "(string \<times> string) list"
type_synonym cursor = "(string \<times> string) list"

record 'n arith =
  jsPlus :: "'n \<Rightarrow> 'n \<Rightarrow> 'n"
  jsZero :: 'n
  jsTruthy :: "'n \<Rightarrow> bool"
  jsIsZero :: "'n \<Rightarrow> bool"

record 'n consumed_capacity =
  CapacityUnits :: "'n option"
  TableName :: "string option"

text \<open>
  One page as \<open>Table.runQuery\<close> and \<open>Table.runScan\<close> return it. The object that
  \<open>utils.mergeResults\<close> returns has the same fields, so it has the same type.
\<close>

record 'n page =
  Items :: "item list option"
  Count :: "'n option"
  ScannedCount :: "'n option"
  ConsumedCapacity :: "'n consumed_capacity option"
  LastEvaluatedKey :: "cursor option"

text \<open>The accumulator \<open>result\<close> of \<open>utils.mergeResults\<close>, whose fields all exist.\<close>

record 'n memo =
  mItems :: "item list"
  mCapacityUnits :: 'n
  mTableName :: string
  mCount :: 'n
  mScannedCount :: 'n
  mLastEvaluatedKey :: "cursor option"

section \<open>utils.mergeResults\<close>

text \<open>
  The callback of \<open>_.reduce\<close>. A falsy response (\<open>None\<close>) leaves the accumulator as it
  is. \<open>x || 0\<close> is \<open>x\<close> when \<open>x\<close> is there and truthy, and \<open>0\<close> otherwise.
\<close>

definition mergeStep :: "'n arith \<Rightarrow> 'n memo \<Rightarrow> 'n page option \<Rightarrow> 'n memo" where
  "mergeStep A m r =
     (case r of
        None \<Rightarrow> m
      | Some resp \<Rightarrow>
          m\<lparr> mCount :=
               jsPlus A (mCount m)
                 (case Count resp of
                    None \<Rightarrow> jsZero A
                  | Some x \<Rightarrow> if jsTruthy A x then x else jsZero A),
             mScannedCount :=
               jsPlus A (mScannedCount m)
                 (case ScannedCount resp of
                    None \<Rightarrow> jsZero A
                  | Some x \<Rightarrow> if jsTruthy A x then x else jsZero A),
             mCapacityUnits :=
               (case ConsumedCapacity resp of
                  None \<Rightarrow> mCapacityUnits m
                | Some c \<Rightarrow>
                    jsPlus A (mCapacityUnits m)
                      (case CapacityUnits c of
                         None \<Rightarrow> jsZero A
                       | Some x \<Rightarrow> if jsTruthy A x then x else jsZero A)),
             mItems :=
               (case Items resp of
                  None \<Rightarrow> mItems m
                | Some xs \<Rightarrow> mItems m @ xs),
             mLastEvaluatedKey :=
               (case LastEvaluatedKey resp of
                  None \<Rightarrow> mLastEvaluatedKey m
                | Some k \<Rightarrow> Some k) \<rparr>)"

definition initialMemo :: "'n arith \<Rightarrow> string \<Rightarrow> 'n memo" where
  "initialMemo A tableName =
     \<lparr> mItems = [], mCapacityUnits = jsZero A, mTableName = tableName,
       mCount = jsZero A, mScannedCount = jsZero A, mLastEvaluatedKey = None \<rparr>"

text \<open>The two \<open>delete\<close> statements that follow the reduction.\<close>

definition finishMerge :: "'n arith \<Rightarrow> 'n memo \<Rightarrow> 'n page" where
  "finishMerge A m =
     \<lparr> Items = Some (mItems m),
       Count = Some (mCount m),
       ScannedCount = (if jsIsZero A (mScannedCount m) then None else Some (mScannedCount m)),
       ConsumedCapacity =
         (if jsIsZero A (mCapacityUnits m) then None
          else Some \<lparr> CapacityUnits = Some (mCapacityUnits m),
                      TableName = Some (mTableName m) \<rparr>),
       LastEvaluatedKey = mLastEvaluatedKey m \<rparr>"

definition mergeResults :: "'n arith \<Rightarrow> 'n page option list \<Rightarrow> string \<Rightarrow> 'n page" where
  "mergeResults A responses tableName =
     finishMerge A (foldl (mergeStep A) (initialMemo A tableName) responses)"

subsection \<open>The sums the aggregate is compared with\<close>

text \<open>
  These follow the spec's words, not the code. The pages of a sequence of responses are
  its entries that are objects. What a page counts is its field, and nothing when the
  field is missing or falsy; the page's capacity units are those of its
  \<open>ConsumedCapacity\<close>, and nothing when it has none. The sum of a sequence of numbers
  is taken from \<open>0\<close>, adding one after the other in page order.
\<close>

definition present :: "'a option list \<Rightarrow> 'a list" where
  "present rs = concat (map (\<lambda>r. case r of None \<Rightarrow> [] | Some x \<Rightarrow> [x]) rs)"

definition counted :: "'n arith \<Rightarrow> 'n option \<Rightarrow> 'n" where
  "counted A field =
     (case field of None \<Rightarrow> jsZero A | Some x \<Rightarrow> if jsTruthy A x then x else jsZero A)"

definition pageItems :: "'n page \<Rightarrow> item list" where
  "pageItems resp = (case Items resp of None \<Rightarrow> [] | Some xs \<Rightarrow> xs)"

definition pageUnits :: "'n page \<Rightarrow> 'n option" where
  "pageUnits resp = (case ConsumedCapacity resp of None \<Rightarrow> None | Some c \<Rightarrow> CapacityUnits c)"

fun sumFrom :: "'n arith \<Rightarrow> 'n \<Rightarrow> 'n list \<Rightarrow> 'n" where
  "sumFrom A acc [] = acc"
| "sumFrom A acc (x # xs) = sumFrom A (jsPlus A acc x) xs"

definition sumOf :: "'n arith \<Rightarrow> 'n list \<Rightarrow> 'n" where
  "sumOf A xs = sumFrom A (jsZero A) xs"

text \<open>The pages that report capacity, in page order.\<close>

definition reporting :: "'n page list \<Rightarrow> 'n page list" where
  "reporting ps = filter (\<lambda>p. ConsumedCapacity p \<noteq> None) ps"

fun lastCursor :: "cursor option \<Rightarrow> 'n page list \<Rightarrow> cursor option" where
  "lastCursor k [] = k"
| "lastCursor k (p # ps) =
     lastCursor (case LastEvaluatedKey p of None \<Rightarrow> k | Some k' \<Rightarrow> Some k') ps"

text \<open>
  Arithmetic without rounding on the rationals. Double arithmetic agrees with it as long
  as every number and every sum is a multiple of one half below \<open>2^52\<close> in absolute
  value, which holds of the numbers in the concrete runs below.
\<close>

definition exactArith :: "rat arith" where
  "exactArith =
     \<lparr> jsPlus = (\<lambda>x y. x + y), jsZero = 0, jsTruthy = (\<lambda>x. x \<noteq> 0), jsIsZero = (\<lambda>x. x = 0) \<rparr>"

section \<open>The operation object and the gateway\<close>

text \<open>
  A request document: the table's name, the cursor to resume from, and the other fields
  (expressions, sharding), which the engine passes on untouched.
\<close>

record request =
  RequestTableName :: string
  ExclusiveStartKey :: "cursor option"
  Params :: "(string \<times> string) list"

text \<open>
  A query or scan under construction (\<open>Scan\<close> in the source): \<open>this.request\<close>,
  \<open>this.options.loadAll\<close> and the name \<open>this.table.tableName()\<close> gives.
\<close>

record op =
  opRequest :: request
  loadAll :: bool
  opTableName :: string

text \<open>
  Modelled from the spec: the base class \<open>Op\<close> (\<open>require('./op')\<close>), which
  \<open>Scan\<close> inherits \<open>buildRequest\<close>, \<open>startKey\<close> and \<open>clearStartKey\<close> from, is
  not among the source files. The spec gives the three as \<open>buildRequest() -> Request\<close>,
  \<open>startKey(cursor)\<close>, which sets the cursor ``as the next request's start key'', and
  \<open>clearStartKey()\<close>; \<open>ExclusiveStartKey\<close> is ``present only mid-pagination''.
\<close>

definition buildRequest :: "op \<Rightarrow> request" where
  "buildRequest o' = (opRequest o')\<lparr> RequestTableName := opTableName o' \<rparr>"

definition startKey :: "cursor \<Rightarrow> op \<Rightarrow> op" where
  "startKey k o' = o'\<lparr> opRequest := (opRequest o')\<lparr> ExclusiveStartKey := Some k \<rparr> \<rparr>"

definition clearStartKey :: "op \<Rightarrow> op" where
  "clearStartKey o' = o'\<lparr> opRequest := (opRequest o')\<lparr> ExclusiveStartKey := None \<rparr> \<rparr>"

text \<open>
  A gateway failure. \<open>err.retryable\<close> is read for its truth value, so a missing flag is
  \<open>False\<close>.
\<close>

record gw_error =
  retryable :: bool
  message :: string

text \<open>
  The gateway is outside the program: \<open>runRequestFunc\<close> takes the gateway's state and a
  request and gives the page or the failure, and the gateway's next state. A gateway that
  answers from a fixed script is \<open>scripted d\<close>; once the script is used up it
  answers \<open>d\<close>.
\<close>

type_synonym ('g, 'q, 'r) gateway = "'g \<Rightarrow> 'q \<Rightarrow> (gw_error + 'r) \<times> 'g"

fun scripted :: "(gw_error + 'r) \<Rightarrow> ((gw_error + 'r) list, 'q, 'r) gateway" where
  "scripted d [] q = (d, [])"
| "scripted d (x # xs) q = (x, xs)"

section \<open>utils.paginatedRequest\<close>

text \<open>
  What one execution did: the gateway calls in the order they were issued, each with the
  request sent and the answer received; the value the promise settles with (\<open>Inl\<close> a
  rejection, \<open>Inr\<close> the aggregate), or \<open>None\<close> while the loop is still running; and
  the operation object as the loop left it.
\<close>

record 'n execution =
  calls :: "(request \<times> (gw_error + 'n page)) list"
  outcome :: "(gw_error + 'n page) option"
  opAfter :: op

definition logCall ::
  "request \<times> (gw_error + 'n page) \<Rightarrow> 'n execution \<Rightarrow> 'n execution" where
  "logCall c e = e\<lparr> calls := c # calls e \<rparr>"

text \<open>
  The \<open>while\<close> loop. The argument \<open>n\<close> bounds the number of gateway calls: the loop
  has no bound of its own, and a run that needs more calls has outcome \<open>None\<close>.
\<close>

fun paginatedLoop ::
  "'n arith \<Rightarrow> nat \<Rightarrow> ('g, request, 'n page) gateway \<Rightarrow> 'g \<Rightarrow> op \<Rightarrow> cursor option
     \<Rightarrow> 'n page list \<Rightarrow> bool \<Rightarrow> 'n execution" where
  "paginatedLoop A 0 run g o' lastEvaluatedKey responses retry =
     (if (loadAll o' \<and> lastEvaluatedKey \<noteq> None) \<or> retry
      then \<lparr> calls = [], outcome = None, opAfter = o' \<rparr>
      else \<lparr> calls = [],
             outcome = Some (Inr (mergeResults A (map Some responses) (opTableName o'))),
             opAfter = o' \<rparr>)"
| "paginatedLoop A (Suc n) run g o' lastEvaluatedKey responses retry =
     (if (loadAll o' \<and> lastEvaluatedKey \<noteq> None) \<or> retry
      then
        (case run g (buildRequest o') of
           (Inl err, g') \<Rightarrow>
             if \<not> retryable err
             then \<lparr> calls = [(buildRequest o', Inl err)], outcome = Some (Inl err),
                    opAfter = o' \<rparr>
             else logCall (buildRequest o', Inl err)
                    (paginatedLoop A n run g' o' lastEvaluatedKey responses True)
         | (Inr resp, g') \<Rightarrow>
             logCall (buildRequest o', Inr resp)
               (paginatedLoop A n run g'
                  (case LastEvaluatedKey resp of
                     Some k \<Rightarrow> startKey k o'
                   | None \<Rightarrow> clearStartKey o')
                  (LastEvaluatedKey resp) (responses @ [resp]) False))
      else \<lparr> calls = [],
             outcome = Some (Inr (mergeResults A (map Some responses) (opTableName o'))),
             opAfter = o' \<rparr>)"

definition paginatedRequest ::
  "'n arith \<Rightarrow> nat \<Rightarrow> ('g, request, 'n page) gateway \<Rightarrow> 'g \<Rightarrow> op \<Rightarrow> 'n execution" where
  "paginatedRequest A n runRequestFunc g o' = paginatedLoop A n runRequestFunc g o' None [] True"

text \<open>The pages among the answers of a call log, and the last of them.\<close>

fun pagesOf :: "('q \<times> (gw_error + 'r)) list \<Rightarrow> 'r list" where
  "pagesOf [] = []"
| "pagesOf ((q, Inl err) # cs) = pagesOf cs"
| "pagesOf ((q, Inr resp) # cs) = resp # pagesOf cs"



text \<open>
  The result of leaving the loop, and two bookkeeping functions for the proofs: whether
  every request of a call log carries the cursor of the page before it, and the last page
  of a call log that continues a run whose last page was \<open>prev\<close>.
\<close>

definition finished :: "'n arith \<Rightarrow> op \<Rightarrow> 'n page list \<Rightarrow> 'n execution" where
  "finished A o' responses =
     \<lparr> calls = [],
       outcome = Some (Inr (mergeResults A (map Some responses) (opTableName o'))),
       opAfter = o' \<rparr>"


definition lastPageFrom :: "'r option \<Rightarrow> ('q \<times> (gw_error + 'r)) list \<Rightarrow> 'r option" where
  "lastPageFrom prev cs = (case pagesOf cs of [] \<Rightarrow> prev | _ \<Rightarrow> Some (last (pagesOf cs)))"

section \<open>utils.streamRequest\<close>

text \<open>
  What the consumer and the gateway see of the stream, in order: a gateway call with its
  answer, the pause \<open>wait(millis)\<close> before a retry, a page pushed, the end of the stream
  pushed (\<open>stream.push(null)\<close>), an error emitted.
\<close>

datatype 'n stream_event =
  Called request "gw_error + 'n page"
| Waited nat
| Pushed "'n page"
| PushedEnd
| EmittedError gw_error

text \<open>The variables \<open>startRead\<close> closes over.\<close>

record stream_state =
  sOp :: op
  sLastEvaluatedKey :: "cursor option"
  performRequest :: bool

text \<open>
  How one invocation of \<open>startRead\<close> ends: it returns at once because
  \<open>performRequest\<close> is off; it pushes a page and leaves the stream open; it pushes a
  page and the end of the stream; it emits an error; or its request is still unanswered
  when the bound on the gateway calls is reached.
\<close>

datatype ending = Skipped | PushedPage | PushedLast | Failed | Unanswered

record ('n, 'g) read_result =
  events :: "'n stream_event list"
  stateAfter :: stream_state
  gatewayAfter :: 'g
  ending :: ending
  callsLeft :: nat

text \<open>
  One invocation of \<open>startRead\<close>. After a retryable failure it waits and calls itself.
  The first argument bounds the gateway calls; what is left of it is returned.
\<close>

fun startRead ::
  "nat \<Rightarrow> ('g, request, 'n page) gateway \<Rightarrow> 'g \<Rightarrow> stream_state \<Rightarrow> ('n, 'g) read_result" where
  "startRead 0 run g s =
     \<lparr> events = [], stateAfter = s, gatewayAfter = g,
       ending = (if \<not> performRequest s then Skipped else Unanswered), callsLeft = 0 \<rparr>"
| "startRead (Suc n) run g s =
     (if \<not> performRequest s
      then \<lparr> events = [], stateAfter = s, gatewayAfter = g, ending = Skipped,
             callsLeft = Suc n \<rparr>
      else
        let o1 = (case sLastEvaluatedKey s of
                    Some k \<Rightarrow> startKey k (sOp s)
                  | None \<Rightarrow> sOp s)
        in
          (case run g (buildRequest o1) of
             (Inl err, g') \<Rightarrow>
               if \<not> retryable err
               then \<lparr> events = [Called (buildRequest o1) (Inl err), EmittedError err],
                      stateAfter = s\<lparr> sOp := o1 \<rparr>, gatewayAfter = g', ending = Failed,
                      callsLeft = n \<rparr>
               else
                 (let r = startRead n run g' (s\<lparr> sOp := o1 \<rparr>)
                  in r\<lparr> events := Called (buildRequest o1) (Inl err) # Waited 1000 # events r \<rparr>)
           | (Inr resp, g') \<Rightarrow>
               \<lparr> events =
                   [Called (buildRequest o1) (Inr resp), Pushed resp]
                     @ (if \<not> loadAll o1 \<or> LastEvaluatedKey resp = None then [PushedEnd]
                        else []),
                 stateAfter =
                   s\<lparr> sOp := o1,
                      sLastEvaluatedKey := LastEvaluatedKey resp,
                      performRequest :=
                        (if \<not> loadAll o1 \<or> LastEvaluatedKey resp = None then False
                         else performRequest s) \<rparr>,
                 gatewayAfter = g',
                 ending =
                   (if \<not> loadAll o1 \<or> LastEvaluatedKey resp = None then PushedLast
                    else PushedPage),
                 callsLeft = n \<rparr>))"

text \<open>
  The stream calls \<open>_read\<close>, which is \<open>startRead\<close>, when the consumer asks for data,
  and again only after the invocation before has pushed a page: not after the end of the
  stream, not after an error (nothing was pushed), not while a request is unanswered.
  \<open>reads k n\<close> is the stream under at most \<open>k\<close> invocations and \<open>n\<close> gateway calls.
\<close>

fun reads ::
  "nat \<Rightarrow> nat \<Rightarrow> ('g, request, 'n page) gateway \<Rightarrow> 'g \<Rightarrow> stream_state
     \<Rightarrow> 'n stream_event list" where
  "reads 0 n run g s = []"
| "reads (Suc k) n run g s =
     (let r = startRead n run g s
      in if ending r = PushedPage
         then events r @ reads k (callsLeft r) run (gatewayAfter r) (stateAfter r)
         else events r)"

definition streamRequest ::
  "nat \<Rightarrow> nat \<Rightarrow> ('g, request, 'n page) gateway \<Rightarrow> 'g \<Rightarrow> op \<Rightarrow> 'n stream_event list" where
  "streamRequest k n runRequestFunc g o' =
     reads k n runRequestFunc g
       \<lparr> sOp = o', sLastEvaluatedKey = None, performRequest = True \<rparr>"

text \<open>The gateway calls and the pages pushed in a sequence of events.\<close>

fun callCount :: "'n stream_event list \<Rightarrow> nat" where
  "callCount [] = 0"
| "callCount (Called q a # ys) = Suc (callCount ys)"
| "callCount (x # ys) = callCount ys"

fun pageCount :: "'n stream_event list \<Rightarrow> nat" where
  "pageCount [] = 0"
| "pageCount (Pushed p # ys) = Suc (pageCount ys)"
| "pageCount (x # ys) = pageCount ys"

text \<open>
  The order of the stream's events, for the proofs: \<open>accepts la k n\<close> holds of the
  sequences in which every event is followed by what the code does next, given \<open>k\<close>
  invocations and \<open>n\<close> gateway calls still to go.
\<close>

fun accepts :: "bool \<Rightarrow> nat \<Rightarrow> nat \<Rightarrow> 'n stream_event list \<Rightarrow> bool" where
  "accepts la k n [] = True"
| "accepts la k n (Called q a # ys) =
     (0 < n
      \<and> (case a of
            Inr p \<Rightarrow> (case ys of Pushed p' # ys' \<Rightarrow> p' = p | _ \<Rightarrow> False)
          | Inl e \<Rightarrow>
              if retryable e
              then (case ys of
                      Waited d # ys' \<Rightarrow>
                        (case ys' of
                           [] \<Rightarrow> n = 1
                         | Called q' a' # ys'' \<Rightarrow> q' = q
                         | _ \<Rightarrow> False)
                    | _ \<Rightarrow> False)
              else ys = [EmittedError e])
      \<and> accepts la k (n - 1) ys)"
| "accepts la k n (Waited d # ys) =
     (d = 1000
      \<and> (case ys of [] \<Rightarrow> True | Called q a # ys' \<Rightarrow> True | _ \<Rightarrow> False)
      \<and> accepts la k n ys)"
| "accepts la k n (Pushed p # ys) =
     (0 < k
      \<and> (if \<not> la \<or> LastEvaluatedKey p = None then ys = [PushedEnd]
         else (case ys of
                 [] \<Rightarrow> n = 0 \<or> k = 1
               | Called q a # ys' \<Rightarrow> ExclusiveStartKey q = LastEvaluatedKey p
               | _ \<Rightarrow> False))
      \<and> accepts la (k - 1) n ys)"
| "accepts la k n (PushedEnd # ys) = (ys = [])"
| "accepts la k n (EmittedError e # ys) = (ys = [])"

text \<open>The operation \<open>startRead\<close> builds its request from.\<close>

definition readOp :: "stream_state \<Rightarrow> op" where
  "readOp s = (case sLastEvaluatedKey s of Some k \<Rightarrow> startKey k (sOp s) | None \<Rightarrow> sOp s)"

section \<open>Batched point lookups (batch.js)\<close>

text \<open>
  A serialized key is an attribute map. The entry of one table in \<open>RequestItems\<close> and in
  \<open>UnprocessedKeys\<close> holds the keys and the per-call options (\<open>ConsistentRead\<close>,
  \<open>ProjectionExpression\<close>, ...), whose values the engine does not look into. An object
  keyed by names is an association list, and \<open>_.isEmpty\<close> of it is \<open>= []\<close>.

  The field \<open>Keys\<close> of an entry is the list of keys the engine put there, unless the
  caller's options have a field of that name: \<open>_.merge({}, { Keys: keys }, options)\<close>
  lets the source on the right win, so the caller's value takes the place of the list.
\<close>

type_synonym key = "(string \<times> string) list"

datatype keys_value = KeyList "key list" | CallersValue string

record table_keys =
  Keys :: keys_value
  KeyOptions :: "(string \<times> string) list"

type_synonym request_items = "(string \<times> table_keys) list"

record batch_request =
  RequestItems :: request_items

record batch_response =
  Responses :: "(string \<times> item list) list option"
  UnprocessedKeys :: "request_items option"

record merged_responses =
  MergedResponses :: "(string \<times> item list) list"
  MergedConsumedCapacity :: "item list"

definition buildInitialGetItemsRequest ::
  "string \<Rightarrow> key list \<Rightarrow> (string \<times> string) list \<Rightarrow> batch_request" where
  "buildInitialGetItemsRequest tableName keys options =
     \<lparr> RequestItems =
         [(tableName,
           \<lparr> Keys = (case map_of options ''Keys'' of
                        None \<Rightarrow> KeyList keys
                      | Some v \<Rightarrow> CallersValue v),
             KeyOptions = filter (\<lambda>(name, v). name \<noteq> ''Keys'') options \<rparr>)] \<rparr>"

text \<open>The callback of \<open>responses.reduce\<close>, on the table's item array, and the result.\<close>

definition mergeResponse :: "string \<Rightarrow> item list \<Rightarrow> batch_response \<Rightarrow> item list" where
  "mergeResponse tableName memo resp =
     (case Responses resp of
        None \<Rightarrow> memo
      | Some m \<Rightarrow> (case map_of m tableName of None \<Rightarrow> memo | Some xs \<Rightarrow> memo @ xs))"

definition mergeResponses :: "string \<Rightarrow> batch_response list \<Rightarrow> merged_responses" where
  "mergeResponses tableName responses =
     \<lparr> MergedResponses = [(tableName, foldl (mergeResponse tableName) [] responses)],
       MergedConsumedCapacity = [] \<rparr>"

text \<open>
  The table and the serializer, as far as the batch engine uses them. \<open>buildKey\<close> is
  \<open>serializer.buildKey(key, null, table.schema)\<close>.
\<close>

record 'i table =
  tableName :: string
  initItem :: "item \<Rightarrow> 'i"

record 'k serializer =
  buildKey :: "'k \<Rightarrow> key"
  deserializeItem :: "item \<Rightarrow> item"

definition serializeKeys :: "'k list \<Rightarrow> 'i table \<Rightarrow> 'k serializer \<Rightarrow> key list" where
  "serializeKeys keys table serializer = map (buildKey serializer) keys"

text \<open>
  \<open>moreKeysToProcessFunc\<close> on what a response left unprocessed: neither \<open>null\<close> nor
  empty. The loop's variable \<open>request\<close> holds a request to send (\<open>Some\<close>; an object
  with the field \<open>RequestItems\<close> is never empty), or, after a response that left
  nothing, a value the test rejects (\<open>None\<close>).
\<close>

definition moreKeysToProcess :: "request_items option \<Rightarrow> bool" where
  "moreKeysToProcess u = (case u of None \<Rightarrow> False | Some m \<Rightarrow> m \<noteq> [])"

definition nextRequest :: "batch_response \<Rightarrow> batch_request option" where
  "nextRequest response =
     (case UnprocessedKeys response of
        None \<Rightarrow> None
      | Some m \<Rightarrow> if moreKeysToProcess (Some m) then Some \<lparr> RequestItems = m \<rparr> else None)"

text \<open>
  What one sub-protocol did: the calls the gateway has answered, in order, each with the
  request and the answer; the request that is sent and not yet answered, if any; and the
  value the promise settles with, or \<open>None\<close> while the loop is running.
\<close>

record 'a batch_execution =
  bcalls :: "(batch_request \<times> (gw_error + batch_response)) list"
  bpending :: "batch_request option"
  boutcome :: "(gw_error + 'a) option"

definition logBatchCall ::
  "batch_request \<times> (gw_error + batch_response) \<Rightarrow> 'a batch_execution \<Rightarrow> 'a batch_execution" where
  "logBatchCall c e = e\<lparr> bcalls := c # bcalls e \<rparr>"

text \<open>
  The loop of \<open>internals.paginatedRequest\<close>. The first argument is the number of
  answers the gateway has given this loop so far; the loop sends its next request as
  soon as it has the answer to the one before.
\<close>

fun batchLoop ::
  "nat \<Rightarrow> ('g, batch_request, batch_response) gateway \<Rightarrow> 'g \<Rightarrow> string
     \<Rightarrow> batch_request option \<Rightarrow> batch_response list \<Rightarrow> merged_responses batch_execution" where
  "batchLoop 0 run g t request responses =
     (case request of
        None \<Rightarrow>
          \<lparr> bcalls = [], bpending = None,
            boutcome = Some (Inr (mergeResponses t responses)) \<rparr>
      | Some rq \<Rightarrow> \<lparr> bcalls = [], bpending = Some rq, boutcome = None \<rparr>)"
| "batchLoop (Suc n) run g t request responses =
     (case request of
        None \<Rightarrow>
          \<lparr> bcalls = [], bpending = None,
            boutcome = Some (Inr (mergeResponses t responses)) \<rparr>
      | Some rq \<Rightarrow>
          (case run g rq of
             (Inl err, g') \<Rightarrow>
               if \<not> retryable err
               then \<lparr> bcalls = [(rq, Inl err)], bpending = None, boutcome = Some (Inl err) \<rparr>
               else logBatchCall (rq, Inl err) (batchLoop n run g' t (Some rq) responses)
           | (Inr response, g') \<Rightarrow>
               logBatchCall (rq, Inr response)
                 (batchLoop n run g' t (nextRequest response) (responses @ [response]))))"

definition batchPaginatedRequest ::
  "nat \<Rightarrow> ('g, batch_request, batch_response) gateway \<Rightarrow> 'g \<Rightarrow> batch_request \<Rightarrow> 'i table
     \<Rightarrow> merged_responses batch_execution" where
  "batchPaginatedRequest n run g request table =
     batchLoop n run g (tableName table) (Some request) []"

definition initialBatchGetItems ::
  "nat \<Rightarrow> ('g, batch_request, batch_response) gateway \<Rightarrow> 'g \<Rightarrow> 'k list \<Rightarrow> 'i table
     \<Rightarrow> 'k serializer \<Rightarrow> (string \<times> string) list \<Rightarrow> 'i list batch_execution" where
  "initialBatchGetItems n run g keys table serializer options =
     (let serializedKeys = serializeKeys keys table serializer;
          request = buildInitialGetItemsRequest (tableName table) serializedKeys options;
          e = batchPaginatedRequest n run g request table
      in \<lparr> bcalls = bcalls e,
           bpending = bpending e,
           boutcome =
             (case boutcome e of
                None \<Rightarrow> None
              | Some (Inl err) \<Rightarrow> Some (Inl err)
              | Some (Inr data) \<Rightarrow>
                  Some (Inr (map (\<lambda>i. initItem table (deserializeItem serializer i))
                    (case map_of (MergedResponses data) (tableName table) of
                       None \<Rightarrow> []
                     | Some dynamoItems \<Rightarrow> dynamoItems)))) \<rparr>)"

subsection \<open>The caller's objects\<close>

text \<open>
  The caller hands \<open>getItems\<close> references to an array of keys and to an options object.
  The store maps a reference to the array or the object it names; \<open>nextRef\<close> is the
  first reference not yet in use.
\<close>

type_synonym ref = nat

record 'k heap =
  arrays :: "ref \<Rightarrow> 'k list"
  objects :: "ref \<Rightarrow> (string \<times> string) list"
  nextRef :: ref

text \<open>\<open>_.clone(keys)\<close>: a new array with the same elements.\<close>

definition clone :: "'k heap \<Rightarrow> ref \<Rightarrow> 'k heap \<times> ref" where
  "clone h r =
     (h\<lparr> arrays := (arrays h)(nextRef h := arrays h r), nextRef := Suc (nextRef h) \<rparr>,
      nextRef h)"

text \<open>The default \<open>options={}\<close>: a new empty object.\<close>

definition newObject :: "'k heap \<Rightarrow> 'k heap \<times> ref" where
  "newObject h =
     (h\<lparr> objects := (objects h)(nextRef h := []), nextRef := Suc (nextRef h) \<rparr>, nextRef h)"

text \<open>
  \<open>keys.splice(start, deleteCount)\<close> takes the elements out of the array in place and
  returns them.
\<close>

definition splice :: "'k heap \<Rightarrow> ref \<Rightarrow> nat \<Rightarrow> nat \<Rightarrow> 'k heap \<times> 'k list" where
  "splice h r start deleteCount =
     (h\<lparr> arrays := (arrays h)
           (r := take start (arrays h r) @ drop (start + deleteCount) (arrays h r)) \<rparr>,
      take deleteCount (drop start (arrays h r)))"

function bucketsLoop :: "'k heap \<Rightarrow> ref \<Rightarrow> 'k list list \<Rightarrow> 'k heap \<times> 'k list list" where
  "bucketsLoop h keys bs =
     (if length (arrays h keys) \<noteq> 0
      then bucketsLoop (fst (splice h keys 0 100)) keys (bs @ [snd (splice h keys 0 100)])
      else (h, bs))"
  by pat_completeness auto
termination
  by (relation "measure (\<lambda>(h, keys, bs). length (arrays h keys))") (auto simp add: splice_def)

definition buckets :: "'k heap \<Rightarrow> ref \<Rightarrow> 'k heap \<times> 'k list list" where
  "buckets h keys = bucketsLoop h keys []"

subsection \<open>getItems\<close>

text \<open>
  \<open>Promise.map(buckets, mapper)\<close>, called without a concurrency option, calls the
  mapper on every bucket before any answer of the gateway can arrive: every bucket's
  first request is sent at once, and the sub-protocols then run side by side. Which
  answer arrives when is the gateway's choice, not the program's, so an execution is
  described by a schedule: the list of the buckets (by index) in the order in which the
  gateway's answers reach them. An entry for a bucket that has no request in flight (it
  has finished, or there is no such bucket) delivers nothing. What the gateway answers to
  bucket \<open>i\<close> is given by the gateway as that bucket meets it, \<open>gs i\<close>.

  \<open>count_list sched i\<close> is the number of answers bucket \<open>i\<close> has received.
\<close>

fun mapBuckets ::
  "(nat \<Rightarrow> nat) \<Rightarrow> ('g, batch_request, batch_response) gateway \<Rightarrow> (nat \<Rightarrow> 'g) \<Rightarrow> nat
     \<Rightarrow> 'k list list \<Rightarrow> 'i table \<Rightarrow> 'k serializer \<Rightarrow> (string \<times> string) list
     \<Rightarrow> 'i list batch_execution list" where
  "mapBuckets answered run gs i [] table serializer options = []"
| "mapBuckets answered run gs i (key # rest) table serializer options =
     initialBatchGetItems (answered i) run (gs i) key table serializer options
       # mapBuckets answered run gs (Suc i) rest table serializer options"

text \<open>
  \<open>bucketOutcome\<close>, at \<open>i\<close> and \<open>k\<close>, is what the promise of bucket \<open>i\<close> is
  settled with once the bucket has received \<open>k\<close> answers, if it is settled then.
\<close>

definition bucketOutcome ::
  "('g, batch_request, batch_response) gateway \<Rightarrow> (nat \<Rightarrow> 'g) \<Rightarrow> 'k list list \<Rightarrow> 'i table
     \<Rightarrow> 'k serializer \<Rightarrow> (string \<times> string) list \<Rightarrow> nat \<Rightarrow> nat
     \<Rightarrow> (gw_error + 'i list) option" where
  "bucketOutcome run gs bs table serializer options i k =
     (if i < length bs
      then boutcome (initialBatchGetItems k run (gs i) (bs ! i) table serializer options)
      else None)"

text \<open>
  The promise of \<open>Promise.map\<close> is rejected by the first rejection among the mapped
  promises, in time: going through the schedule, by the first answer that makes its
  bucket fail. \<open>seen\<close> is the part of the schedule gone through, so the answer at hand
  is the bucket's answer number \<open>Suc (count_list seen i)\<close>.
\<close>

fun firstRejection ::
  "(nat \<Rightarrow> nat \<Rightarrow> (gw_error + 'a) option) \<Rightarrow> nat list \<Rightarrow> nat list \<Rightarrow> gw_error option" where
  "firstRejection outcomeAfter seen [] = None"
| "firstRejection outcomeAfter seen (i # rest) =
     (case outcomeAfter i (Suc (count_list seen i)) of
        Some (Inl err) \<Rightarrow> Some err
      | _ \<Rightarrow> firstRejection outcomeAfter (seen @ [i]) rest)"

text \<open>It is fulfilled, with the results in bucket order, once every bucket is.\<close>

fun fulfilled :: "'a batch_execution list \<Rightarrow> 'a list option" where
  "fulfilled [] = Some []"
| "fulfilled (e # es) =
     (case boutcome e of
        Some (Inr x) \<Rightarrow> (case fulfilled es of Some xs \<Rightarrow> Some (x # xs) | None \<Rightarrow> None)
      | _ \<Rightarrow> None)"

text \<open>
  What one call of \<open>getItems\<close> did: for every bucket the calls answered and the request
  in flight, and the value the returned promise settles with.
\<close>

record 'i getitems_execution =
  bucketCalls :: "(batch_request \<times> (gw_error + batch_response)) list list"
  inFlight :: "batch_request option list"
  result :: "(gw_error + 'i list) option"

definition getItems ::
  "nat list \<Rightarrow> 'i table \<Rightarrow> 'k serializer \<Rightarrow> ('g, batch_request, batch_response) gateway
     \<Rightarrow> (nat \<Rightarrow> 'g) \<Rightarrow> 'k heap \<Rightarrow> ref \<Rightarrow> ref option \<Rightarrow> 'k heap \<times> 'i getitems_execution" where
  "getItems sched table serializer run gs h keys options =
     (let (h1, opts) = (case options of Some r \<Rightarrow> (h, r) | None \<Rightarrow> newObject h);
          (h2, copy) = clone h1 keys;
          (h3, bs) = buckets h2 copy;
          results = mapBuckets (count_list sched) run gs 0 bs table serializer (objects h3 opts)
      in (h3,
          \<lparr> bucketCalls = map bcalls results,
            inFlight = map bpending results,
            result =
              (case firstRejection (bucketOutcome run gs bs table serializer (objects h3 opts))
                      [] sched of
                 Some err \<Rightarrow> Some (Inl err)
               | None \<Rightarrow>
                   (case fulfilled results of
                      None \<Rightarrow> None
                    | Some xs \<Rightarrow> Some (Inr (concat xs)))) \<rparr>))"

text \<open>
  The buckets as a function of the array's elements alone: the first hundred, then the
  buckets of the rest.
\<close>

function chunks :: "'a list \<Rightarrow> 'a list list" where
  "chunks xs = (if length xs \<noteq> 0 then take 100 xs # chunks (drop 100 xs) else [])"
  by pat_completeness auto
termination
  by (relation "measure length") auto

declare chunks.simps [simp del] bucketsLoop.simps [simp del]

text \<open>
  All the keys a request asks for, and all the requests a sub-protocol has sent: those
  answered and the one in flight.
\<close>

definition requestKeys :: "batch_request \<Rightarrow> key list" where
  "requestKeys rq =
     concat (map (\<lambda>(t, e). case Keys e of KeyList ks \<Rightarrow> ks | CallersValue v \<Rightarrow> [])
               (RequestItems rq))"

definition sentRequests ::
  "(batch_request \<times> (gw_error + batch_response)) list \<Rightarrow> batch_request option
     \<Rightarrow> batch_request list" where
  "sentRequests cs p = map fst cs @ (case p of None \<Rightarrow> [] | Some rq \<Rightarrow> [rq])"

text \<open>
  A gateway answer that serves a request in full: a response that leaves no key
  unprocessed and returns, for the table, as many items as the request has keys.
\<close>

definition answersInFull :: "string \<Rightarrow> batch_request \<Rightarrow> gw_error + batch_response \<Rightarrow> bool" where
  "answersInFull t rq a =
     (case a of
        Inl err \<Rightarrow> False
      | Inr r \<Rightarrow>
          \<not> moreKeysToProcess (UnprocessedKeys r)
          \<and> (case Responses r of
                None \<Rightarrow> False
              | Some m \<Rightarrow>
                  (case map_of m t of
                     None \<Rightarrow> False
                   | Some xs \<Rightarrow> length xs = length (requestKeys rq))))"

text \<open>The options \<open>getItems\<close> works with: the caller's object, or the default \<open>{}\<close>.\<close>

definition optionsOf :: "'k heap \<Rightarrow> ref option \<Rightarrow> (string \<times> string) list" where
  "optionsOf h options = (case options of Some r \<Rightarrow> objects h r | None \<Rightarrow> [])"

text \<open>
  The requests every bucket has sent, the number of requests in flight, and whether a
  call log has a failure that is not retryable.
\<close>

definition bucketRequests :: "'i getitems_execution \<Rightarrow> batch_request list list" where
  "bucketRequests e = map2 sentRequests (bucketCalls e) (inFlight e)"

definition inFlightCount :: "'i getitems_execution \<Rightarrow> nat" where
  "inFlightCount e = length (filter (\<lambda>p. p \<noteq> None) (inFlight e))"

definition fatalIn :: "('q \<times> (gw_error + 'r)) list \<Rightarrow> bool" where
  "fatalIn cs = list_ex (\<lambda>c. case snd c of Inl e \<Rightarrow> \<not> retryable e | Inr r \<Rightarrow> False) cs"

section \<open>Example runs\<close>

text \<open>
  A scan of the table \<open>accounts\<close>, pages, failures and gateway scripts, for the
  concrete runs below.
\<close>

definition exOp :: "bool \<Rightarrow> op" where
  "exOp all =
     \<lparr> opRequest = \<lparr> RequestTableName = [], ExclusiveStartKey = None, Params = [] \<rparr>,
       loadAll = all, opTableName = ''accounts'' \<rparr>"

definition exPage :: "item list \<Rightarrow> cursor option \<Rightarrow> rat page" where
  "exPage xs k =
     \<lparr> Items = Some xs, Count = Some (of_nat (length xs)),
       ScannedCount = Some (of_nat (length xs)), ConsumedCapacity = None,
       LastEvaluatedKey = k \<rparr>"

definition exError :: "bool \<Rightarrow> gw_error" where
  "exError r = \<lparr> retryable = r, message = ''E'' \<rparr>"

definition exFatal :: "string \<Rightarrow> gw_error" where
  "exFatal m = \<lparr> retryable = False, message = m \<rparr>"

text \<open>A page with a cursor, a retryable failure, then the last page.\<close>

definition exScript :: "(gw_error + rat page) list" where
  "exScript =
     [Inr (exPage [[(''id'', ''1'')]] (Some [(''id'', ''1'')])),
      Inl (exError True),
      Inr (exPage [[(''id'', ''2'')]] None)]"

definition exRun :: "bool \<Rightarrow> rat execution" where
  "exRun all =
     paginatedRequest exactArith 5 (scripted (Inl (exError False))) exScript (exOp all)"

text \<open>
  Responses to merge: a page of three items that scanned seven and used one and a half
  capacity units, a falsy response, and a page of four items that reports neither what it
  scanned nor its capacity.
\<close>

definition exResponses :: "rat page option list" where
  "exResponses =
     [Some \<lparr> Items = Some [[(''id'', ''1'')], [(''id'', ''2'')], [(''id'', ''3'')]],
             Count = Some 3, ScannedCount = Some 7,
             ConsumedCapacity =
               Some \<lparr> CapacityUnits = Some (3 / 2), TableName = Some ''accounts'' \<rparr>,
             LastEvaluatedKey = Some [(''id'', ''3'')] \<rparr>,
      None,
      Some \<lparr> Items = Some [[(''id'', ''4'')], [(''id'', ''5'')], [(''id'', ''6'')],
                           [(''id'', ''7'')]],
             Count = Some 4, ScannedCount = None, ConsumedCapacity = None,
             LastEvaluatedKey = None \<rparr>]"

text \<open>
  A batch get of two accounts: a retryable failure, then a response that leaves one key
  unprocessed, then the rest.
\<close>

definition exTable :: "item table" where
  "exTable = \<lparr> tableName = ''accounts'', initItem = (\<lambda>i. i) \<rparr>"

definition exSerializer :: "string serializer" where
  "exSerializer = \<lparr> buildKey = (\<lambda>k. [(''email'', k)]), deserializeItem = (\<lambda>i. i) \<rparr>"

definition exUnprocessed :: request_items where
  "exUnprocessed =
     [(''accounts'', \<lparr> Keys = KeyList [[(''email'', ''foo'')]], KeyOptions = [] \<rparr>)]"

definition exBatchScript :: "(gw_error + batch_response) list" where
  "exBatchScript =
     [Inl (exError True),
      Inr \<lparr> Responses = Some [(''accounts'', [[(''email'', ''test'')]])],
            UnprocessedKeys = Some exUnprocessed \<rparr>,
      Inr \<lparr> Responses = Some [(''accounts'', [[(''email'', ''foo'')]])],
            UnprocessedKeys = None \<rparr>]"

definition exBatchRequest :: batch_request where
  "exBatchRequest =
     buildInitialGetItemsRequest ''accounts''
       [[(''email'', ''test'')], [(''email'', ''foo'')]] []"

definition exBatchRun :: "merged_responses batch_execution" where
  "exBatchRun =
     batchPaginatedRequest 5 (scripted (Inl (exError False))) exBatchScript exBatchRequest exTable"

text \<open>
  A gateway that returns every key it is asked for as an item, and a caller with an array
  of keys at reference 0 and an empty options object at reference 1.
\<close>

definition echoGateway :: "(unit, batch_request, batch_response) gateway" where
  "echoGateway g rq =
     (Inr \<lparr> Responses = Some [(''accounts'', requestKeys rq)], UnprocessedKeys = None \<rparr>, g)"

definition natSerializer :: "nat serializer" where
  "natSerializer =
     \<lparr> buildKey = (\<lambda>k. [(''id'', replicate k (CHR ''i''))]), deserializeItem = (\<lambda>i. i) \<rparr>"

definition exHeap :: "nat list \<Rightarrow> nat heap" where
  "exHeap ks = \<lparr> arrays = (\<lambda>r. [])(0 := ks), objects = (\<lambda>r. []), nextRef = 2 \<rparr>"

text \<open>A paginated run that meets a retryable failure and then a fatal one.\<close>

definition exFailRun :: "rat execution" where
  "exFailRun =
     paginatedRequest exactArith 5 (scripted (Inl (exError False)))
       [Inl (exError True), Inl (exError False)] (exOp True)"

text \<open>
  A batch get of 101 keys (101 times the key 0), so of two buckets. The gateway fails the
  first bucket's request with a retryable error and then with the fatal error \<open>A\<close>, and
  the second bucket's request with the fatal error \<open>B\<close>. The answers arrive in the
  order: first bucket, second bucket, first bucket.
\<close>

definition exBatchFail :: "nat list \<Rightarrow> item getitems_execution" where
  "exBatchFail sched =
     snd (getItems sched exTable natSerializer (scripted (Inl (exError False)))
            (\<lambda>i. if i = 0 then [Inl (exError True), Inl (exFatal ''A'')]
                 else [Inl (exFatal ''B'')])
            (exHeap (replicate 101 0)) 0 (Some 1))"

text \<open>The same script as the paginated run's, streamed: at most four reads, five calls.\<close>

definition exStream :: "bool \<Rightarrow> rat stream_event list" where
  "exStream all = streamRequest 4 5 (scripted (Inl (exError False))) exScript (exOp all)"

text \<open>The batch get of two accounts above, through \<open>getItems\<close>.\<close>

definition exBatchGet :: "nat list \<Rightarrow> item getitems_execution" where
  "exBatchGet sched =
     snd (getItems sched exTable exSerializer (scripted (Inl (exError False)))
            (\<lambda>i. exBatchScript)
            \<lparr> arrays = (\<lambda>r. [])(0 := [''test'', ''foo'']), objects = (\<lambda>r. []), nextRef = 1 \<rparr>
            0 None)"

section \<open>Properties of utils.mergeResults\<close>

lemma present_simps [simp]:
  "present [] = []"
  "present (None # rs) = present rs"
  "present (Some x # rs) = x # present rs"
  by (simp_all add: present_def)

lemma present_map_Some [simp]: "present (map Some ps) = ps"
  by (induction ps) simp_all

lemma reporting_simps [simp]:
  "reporting [] = []"
  "ConsumedCapacity p = None \<Longrightarrow> reporting (p # ps) = reporting ps"
  "ConsumedCapacity p = Some c \<Longrightarrow> reporting (p # ps) = p # reporting ps"
  by (simp_all add: reporting_def)

lemma foldl_mergeStep_Count:
  "mCount (foldl (mergeStep A) m rs) =
     sumFrom A (mCount m) (map (\<lambda>p. counted A (Count p)) (present rs))"
proof (induction rs arbitrary: m)
  case (Cons r rs)
  then show ?case by (cases r) (simp_all add: mergeStep_def counted_def)
qed simp

lemma foldl_mergeStep_ScannedCount:
  "mScannedCount (foldl (mergeStep A) m rs) =
     sumFrom A (mScannedCount m) (map (\<lambda>p. counted A (ScannedCount p)) (present rs))"
proof (induction rs arbitrary: m)
  case (Cons r rs)
  then show ?case by (cases r) (simp_all add: mergeStep_def counted_def)
qed simp

lemma foldl_mergeStep_CapacityUnits:
  "mCapacityUnits (foldl (mergeStep A) m rs) =
     sumFrom A (mCapacityUnits m)
       (map (\<lambda>p. counted A (pageUnits p)) (reporting (present rs)))"
proof (induction rs arbitrary: m)
  case Nil
  show ?case by simp
next
  case (Cons r rs)
  show ?case
  proof (cases r)
    case None
    then show ?thesis using Cons.IH [of m] by (simp add: mergeStep_def)
  next
    case (Some p)
    show ?thesis
    proof (cases "ConsumedCapacity p")
      case None
      then show ?thesis
        using Cons.IH [of "mergeStep A m (Some p)"] Some by (simp add: mergeStep_def)
    next
      case (Some c)
      then show ?thesis
        using Cons.IH [of "mergeStep A m (Some p)"] \<open>r = Some p\<close>
        by (simp add: mergeStep_def counted_def pageUnits_def)
    qed
  qed
qed

lemma foldl_mergeStep_Items:
  "mItems (foldl (mergeStep A) m rs) = mItems m @ concat (map pageItems (present rs))"
proof (induction rs arbitrary: m)
  case (Cons r rs)
  then show ?case
    by (cases r) (simp_all add: mergeStep_def pageItems_def split: option.splits)
qed simp

lemma foldl_mergeStep_TableName:
  "mTableName (foldl (mergeStep A) m rs) = mTableName m"
proof (induction rs arbitrary: m)
  case (Cons r rs)
  then show ?case by (cases r) (simp_all add: mergeStep_def)
qed simp

lemma foldl_mergeStep_LastEvaluatedKey:
  "mLastEvaluatedKey (foldl (mergeStep A) m rs)
     = lastCursor (mLastEvaluatedKey m) (present rs)"
proof (induction rs arbitrary: m)
  case (Cons r rs)
  then show ?case by (cases r) (simp_all add: mergeStep_def)
qed simp

text \<open>Without rounding, the sum taken one number after the other is the sum.\<close>

lemma sumFrom_exactArith: "sumFrom exactArith acc xs = acc + sum_list xs"
  by (induction xs arbitrary: acc) (simp_all add: exactArith_def)

lemma sumOf_exactArith: "sumOf exactArith xs = sum_list xs"
  by (simp add: sumOf_def sumFrom_exactArith) (simp add: exactArith_def)

text \<open>
  Claim C3. For every sequence of responses handed to \<open>utils.mergeResults\<close>, and
  whatever the arithmetic of numbers is: the aggregate's \<open>Items\<close> is the concatenation
  of the pages' items in page order; its \<open>Count\<close> is the sum of what the pages count;
  its \<open>ScannedCount\<close> is missing exactly when the sum of what the pages scanned is
  zero, and is that sum otherwise; its \<open>ConsumedCapacity\<close> is missing exactly when the
  sum of the capacity units of the pages that report capacity is zero, and otherwise
  holds that sum and the table's name.
\<close>

theorem mergeResults_aggregate:
  "Items (mergeResults A rs t) = Some (concat (map pageItems (present rs)))
   \<and> Count (mergeResults A rs t)
       = Some (sumOf A (map (\<lambda>p. counted A (Count p)) (present rs)))
   \<and> ((ScannedCount (mergeResults A rs t) = None)
        = jsIsZero A (sumOf A (map (\<lambda>p. counted A (ScannedCount p)) (present rs))))
   \<and> (ScannedCount (mergeResults A rs t) = None
      \<or> ScannedCount (mergeResults A rs t)
          = Some (sumOf A (map (\<lambda>p. counted A (ScannedCount p)) (present rs))))
   \<and> ((ConsumedCapacity (mergeResults A rs t) = None)
        = jsIsZero A (sumOf A (map (\<lambda>p. counted A (pageUnits p)) (reporting (present rs)))))
   \<and> (ConsumedCapacity (mergeResults A rs t) = None
      \<or> ConsumedCapacity (mergeResults A rs t)
          = Some \<lparr> CapacityUnits =
                     Some (sumOf A (map (\<lambda>p. counted A (pageUnits p))
                                      (reporting (present rs)))),
                   TableName = Some t \<rparr>)"
  by (simp add: mergeResults_def finishMerge_def initialMemo_def foldl_mergeStep_Count
      foldl_mergeStep_ScannedCount foldl_mergeStep_CapacityUnits foldl_mergeStep_Items
      foldl_mergeStep_TableName sumOf_def)

theorem mergeResults_aggregate_witness:
  "map (\<lambda>p. counted exactArith (Count p)) (present exResponses) = [3, 4]
   \<and> map (\<lambda>p. counted exactArith (ScannedCount p)) (present exResponses) = [7, 0]
   \<and> map (\<lambda>p. counted exactArith (pageUnits p)) (reporting (present exResponses)) = [3 / 2]
   \<and> Items (mergeResults exactArith exResponses ''accounts'')
       = Some [[(''id'', ''1'')], [(''id'', ''2'')], [(''id'', ''3'')], [(''id'', ''4'')],
               [(''id'', ''5'')], [(''id'', ''6'')], [(''id'', ''7'')]]
   \<and> Count (mergeResults exactArith exResponses ''accounts'') = Some 7
   \<and> ScannedCount (mergeResults exactArith exResponses ''accounts'') = Some 7
   \<and> ConsumedCapacity (mergeResults exactArith exResponses ''accounts'')
       = Some \<lparr> CapacityUnits = Some (3 / 2), TableName = Some ''accounts'' \<rparr>"
proof -
  note th = mergeResults_aggregate [of exactArith exResponses "''accounts''"]
  have a: "concat (map pageItems (present exResponses))
       = [[(''id'', ''1'')], [(''id'', ''2'')], [(''id'', ''3'')], [(''id'', ''4'')],
          [(''id'', ''5'')], [(''id'', ''6'')], [(''id'', ''7'')]]"
    by (simp add: exResponses_def pageItems_def)
  have b: "map (\<lambda>p. counted exactArith (Count p)) (present exResponses) = [3, 4]"
    by (simp add: exResponses_def counted_def exactArith_def)
  have c: "map (\<lambda>p. counted exactArith (ScannedCount p)) (present exResponses) = [7, 0]"
    by (simp add: exResponses_def counted_def exactArith_def)
  have d: "map (\<lambda>p. counted exactArith (pageUnits p)) (reporting (present exResponses))
       = [3 / 2]"
    by (simp add: exResponses_def counted_def pageUnits_def exactArith_def)
  have z: "\<not> jsIsZero exactArith 7" "\<not> jsIsZero exactArith (3 / 2)"
    "sumOf exactArith [3, 4] = 7" "sumOf exactArith [7, 0] = 7"
    "sumOf exactArith [3 / 2] = 3 / 2"
    by (simp_all add: sumOf_exactArith) (simp_all add: exactArith_def)
  from th have 1: "Items (mergeResults exactArith exResponses ''accounts'')
       = Some [[(''id'', ''1'')], [(''id'', ''2'')], [(''id'', ''3'')], [(''id'', ''4'')],
               [(''id'', ''5'')], [(''id'', ''6'')], [(''id'', ''7'')]]"
    unfolding a by auto
  from th have 2: "Count (mergeResults exactArith exResponses ''accounts'') = Some 7"
    unfolding b z by auto
  from th z(1) have 3: "ScannedCount (mergeResults exactArith exResponses ''accounts'') = Some 7"
    unfolding c z(4) by auto
  from th z(2) have 4: "ConsumedCapacity (mergeResults exactArith exResponses ''accounts'')
       = Some \<lparr> CapacityUnits = Some (3 / 2), TableName = Some ''accounts'' \<rparr>"
    unfolding d z(5) by auto
  from b c d 1 2 3 4 show ?thesis by blast
qed

section \<open>Properties of utils.paginatedRequest\<close>

lemma logCall_simps [simp]:
  "calls (logCall c e) = c # calls e"
  "outcome (logCall c e) = outcome e"
  "opAfter (logCall c e) = opAfter e"
  by (simp_all add: logCall_def)

lemma finished_simps [simp]:
  "calls (finished A o' rs) = []"
  "outcome (finished A o' rs) = Some (Inr (mergeResults A (map Some rs) (opTableName o')))"
  "opAfter (finished A o' rs) = o'"
  by (simp_all add: finished_def)

lemma op_simps [simp]:
  "ExclusiveStartKey (buildRequest o') = ExclusiveStartKey (opRequest o')"
  "ExclusiveStartKey (opRequest (startKey k o')) = Some k"
  "ExclusiveStartKey (opRequest (clearStartKey o')) = None"
  "loadAll (startKey k o') = loadAll o'"
  "loadAll (clearStartKey o') = loadAll o'"
  "opTableName (startKey k o') = opTableName o'"
  "opTableName (clearStartKey o') = opTableName o'"
  by (simp_all add: buildRequest_def startKey_def clearStartKey_def)

lemma pagesOf_append [simp]: "pagesOf (xs @ ys) = pagesOf xs @ pagesOf ys"
  by (induction xs rule: pagesOf.induct) simp_all

lemma lastPageFrom_simps [simp]:
  "lastPageFrom prev [] = prev"
  "lastPageFrom prev ((q, Inl e) # cs) = lastPageFrom prev cs"
  "lastPageFrom prev ((q, Inr p) # cs) = lastPageFrom (Some p) cs"
  by (simp_all add: lastPageFrom_def split: list.splits)


text \<open>The two ways through one iteration of the loop.\<close>

lemma paginatedLoop_stop:
  "\<not> ((loadAll o' \<and> lek \<noteq> None) \<or> retry) \<Longrightarrow>
   paginatedLoop A n run g o' lek rs retry = finished A o' rs"
  by (cases n) (auto simp add: finished_def)

lemma paginatedLoop_go:
  "(loadAll o' \<and> lek \<noteq> None) \<or> retry \<Longrightarrow>
   paginatedLoop A (Suc n) run g o' lek rs retry =
     (case run g (buildRequest o') of
        (Inl err, g') \<Rightarrow>
          if \<not> retryable err
          then \<lparr> calls = [(buildRequest o', Inl err)], outcome = Some (Inl err), opAfter = o' \<rparr>
          else logCall (buildRequest o', Inl err) (paginatedLoop A n run g' o' lek rs True)
      | (Inr resp, g') \<Rightarrow>
          logCall (buildRequest o', Inr resp)
            (paginatedLoop A n run g'
               (case LastEvaluatedKey resp of Some k \<Rightarrow> startKey k o' | None \<Rightarrow> clearStartKey o')
               (LastEvaluatedKey resp) (rs @ [resp]) False))"
  by auto

lemma paginatedLoop_first:
  assumes "(loadAll o' \<and> lek \<noteq> None) \<or> retry"
  shows "calls (paginatedLoop A (Suc n) run g o' lek rs retry) \<noteq> []
       \<and> fst (calls (paginatedLoop A (Suc n) run g o' lek rs retry) ! 0) = buildRequest o'"
  unfolding paginatedLoop_go [OF assms]
  by (auto split: prod.splits sum.splits)






text \<open>Failures: a fatal one ends the run, a retryable one is followed by the same request.\<close>

lemma paginatedLoop_errors:
  assumes "i < length (calls (paginatedLoop A n run g o' lek rs retry))"
    and "calls (paginatedLoop A n run g o' lek rs retry) ! i = (q, Inl err)"
  shows "(\<not> retryable err \<longrightarrow>
            Suc i = length (calls (paginatedLoop A n run g o' lek rs retry))
          \<and> outcome (paginatedLoop A n run g o' lek rs retry) = Some (Inl err))
       \<and> (retryable err \<longrightarrow> Suc i < n \<longrightarrow>
            Suc i < length (calls (paginatedLoop A n run g o' lek rs retry))
          \<and> fst (calls (paginatedLoop A n run g o' lek rs retry) ! Suc i) = q)"
  using assms
proof (induction n arbitrary: i g o' lek rs retry)
  case 0
  then show ?case by (simp split: if_splits)
next
  case (Suc n)
  show ?case
  proof (cases "(loadAll o' \<and> lek \<noteq> None) \<or> retry")
    case False
    show ?thesis using Suc.prems unfolding paginatedLoop_stop [OF False] by simp
  next
    case True
    note go = paginatedLoop_go [OF True]
    obtain a g' where run: "run g (buildRequest o') = (a, g')"
      by (cases "run g (buildRequest o')")
    show ?thesis
    proof (cases a)
      case (Inl e)
      show ?thesis
      proof (cases "retryable e")
        case False
        then show ?thesis using Suc.prems run Inl unfolding go by simp
      next
        case r: True
        let ?rest = "paginatedLoop A n run g' o' lek rs True"
        have eq: "paginatedLoop A (Suc n) run g o' lek rs retry
                    = logCall (buildRequest o', Inl e) ?rest"
          unfolding go using run Inl r by simp
        show ?thesis
        proof (cases i)
          case 0
          have "q = buildRequest o'" "err = e" using Suc.prems(2) 0 unfolding eq by simp_all
          moreover have "0 < n \<Longrightarrow> calls ?rest \<noteq> [] \<and> fst (calls ?rest ! 0) = buildRequest o'"
            using paginatedLoop_first [of o' lek True A _ run g' rs] by (cases n) simp_all
          ultimately show ?thesis unfolding eq using 0 r by auto
        next
          case (Suc j)
          have "j < length (calls ?rest)" "calls ?rest ! j = (q, Inl err)"
            using Suc.prems Suc unfolding eq by simp_all
          from Suc.IH [OF this] show ?thesis unfolding eq using Suc by simp
        qed
      qed
    next
      case (Inr resp)
      let ?rest = "paginatedLoop A n run g'
               (case LastEvaluatedKey resp of Some k \<Rightarrow> startKey k o' | None \<Rightarrow> clearStartKey o')
               (LastEvaluatedKey resp) (rs @ [resp]) False"
      have eq: "paginatedLoop A (Suc n) run g o' lek rs retry
                  = logCall (buildRequest o', Inr resp) ?rest"
        unfolding go using run Inr by simp
      show ?thesis
      proof (cases i)
        case 0
        then show ?thesis using Suc.prems(2) unfolding eq by simp
      next
        case (Suc j)
        have "j < length (calls ?rest)" "calls ?rest ! j = (q, Inl err)"
          using Suc.prems Suc unfolding eq by simp_all
        from Suc.IH [OF this] show ?thesis unfolding eq using Suc by simp
      qed
    qed
  qed
qed

text \<open>The value returned is the merge of the pages fetched, in the order of the calls.\<close>

lemma paginatedLoop_outcome:
  "outcome (paginatedLoop A n run g o' lek rs retry) = Some (Inr agg) \<Longrightarrow>
   agg = mergeResults A (map Some (rs @ pagesOf (calls (paginatedLoop A n run g o' lek rs retry))))
           (opTableName o')"
proof (induction n arbitrary: g o' lek rs retry)
  case 0
  then show ?case by (simp split: if_splits)
next
  case (Suc n)
  show ?case
  proof (cases "(loadAll o' \<and> lek \<noteq> None) \<or> retry")
    case False
    show ?thesis using Suc.prems unfolding paginatedLoop_stop [OF False] by simp
  next
    case True
    note go = paginatedLoop_go [OF True]
    obtain a g' where run: "run g (buildRequest o') = (a, g')"
      by (cases "run g (buildRequest o')")
    show ?thesis
    proof (cases a)
      case (Inl e)
      then show ?thesis using Suc.prems Suc.IH [of g' o' lek rs True] run unfolding go
        by (cases "retryable e") simp_all
    next
      case (Inr resp)
      then show ?thesis using Suc.prems run
          Suc.IH [of g' "case LastEvaluatedKey resp of Some k \<Rightarrow> startKey k o'
                          | None \<Rightarrow> clearStartKey o'"
            "LastEvaluatedKey resp" "rs @ [resp]" False]
        unfolding go by (simp split: option.splits)
    qed
  qed
qed


text \<open>
  With \<open>loadAll\<close>, a run that returns has fetched pages that all carry a cursor, except
  the last, and has cleared the start key.
\<close>

lemma paginatedLoop_calls_test:
  "calls (paginatedLoop A n run g o' lek rs retry) \<noteq> [] \<Longrightarrow> (loadAll o' \<and> lek \<noteq> None) \<or> retry"
  using paginatedLoop_stop [of o' lek retry A n run g rs] by (cases "(loadAll o' \<and> lek \<noteq> None) \<or> retry") simp_all

lemma pagesOf_calls_test:
  assumes "pagesOf (calls (paginatedLoop A n run g o' lek rs retry)) \<noteq> []"
  shows "(loadAll o' \<and> lek \<noteq> None) \<or> retry"
proof (rule paginatedLoop_calls_test)
  show "calls (paginatedLoop A n run g o' lek rs retry) \<noteq> []" using assms by auto
qed

lemma paginatedLoop_pages:
  assumes "loadAll o'"
    and "outcome (paginatedLoop A n run g o' lek rs retry) = Some (Inr agg)"
  shows "(pagesOf (calls (paginatedLoop A n run g o' lek rs retry)) = [] \<longrightarrow>
            \<not> retry \<and> lek = None \<and> opAfter (paginatedLoop A n run g o' lek rs retry) = o')
       \<and> (pagesOf (calls (paginatedLoop A n run g o' lek rs retry)) \<noteq> [] \<longrightarrow>
            LastEvaluatedKey (last (pagesOf (calls (paginatedLoop A n run g o' lek rs retry)))) = None
          \<and> list_all (\<lambda>x. LastEvaluatedKey x \<noteq> None)
              (butlast (pagesOf (calls (paginatedLoop A n run g o' lek rs retry))))
          \<and> ExclusiveStartKey (opRequest (opAfter (paginatedLoop A n run g o' lek rs retry))) = None)"
  using assms
proof (induction n arbitrary: g o' lek rs retry)
  case 0
  then show ?case by (simp split: if_splits)
next
  case (Suc n)
  show ?case
  proof (cases "(loadAll o' \<and> lek \<noteq> None) \<or> retry")
    case False
    show ?thesis using Suc.prems False unfolding paginatedLoop_stop [OF False] by simp
  next
    case True
    note go = paginatedLoop_go [OF True]
    obtain a g' where run: "run g (buildRequest o') = (a, g')"
      by (cases "run g (buildRequest o')")
    show ?thesis
    proof (cases a)
      case (Inl e)
      show ?thesis
      proof (cases "retryable e")
        case False
        then show ?thesis using Suc.prems run Inl unfolding go by simp
      next
        case r: True
        let ?rest = "paginatedLoop A n run g' o' lek rs True"
        have eq: "paginatedLoop A (Suc n) run g o' lek rs retry
                    = logCall (buildRequest o', Inl e) ?rest"
          unfolding go using run Inl r by simp
        have "outcome ?rest = Some (Inr agg)" using Suc.prems(2) unfolding eq by simp
        from Suc.IH [OF Suc.prems(1) this] show ?thesis unfolding eq by simp
      qed
    next
      case (Inr resp)
      let ?o = "case LastEvaluatedKey resp of Some k \<Rightarrow> startKey k o' | None \<Rightarrow> clearStartKey o'"
      let ?rest = "paginatedLoop A n run g' ?o (LastEvaluatedKey resp) (rs @ [resp]) False"
      have eq: "paginatedLoop A (Suc n) run g o' lek rs retry
                  = logCall (buildRequest o', Inr resp) ?rest"
        unfolding go using run Inr by simp
      have la: "loadAll ?o" using Suc.prems(1) by (simp split: option.splits)
      have out: "outcome ?rest = Some (Inr agg)" using Suc.prems(2) unfolding eq by simp
      note IH = Suc.IH [OF la out]
      show ?thesis
      proof (cases "pagesOf (calls ?rest) = []")
        case True
        with IH have lek: "LastEvaluatedKey resp = None" and after: "opAfter ?rest = ?o"
          by blast+
        have "ExclusiveStartKey (opRequest (opAfter ?rest)) = None"
          unfolding after by (simp add: lek)
        then show ?thesis unfolding eq using True lek by simp
      next
        case False
        from pagesOf_calls_test [OF False] have "LastEvaluatedKey resp \<noteq> None" by simp
        then show ?thesis unfolding eq using False IH by simp
      qed
    qed
  qed
qed

lemma lastCursor_snoc:
  "lastCursor k (xs @ [p]) =
     (case LastEvaluatedKey p of None \<Rightarrow> lastCursor k xs | Some k' \<Rightarrow> Some k')"
  by (induction xs arbitrary: k) (simp_all split: option.splits)

lemma lastCursor_last:
  "xs \<noteq> [] \<Longrightarrow> LastEvaluatedKey (last xs) \<noteq> None \<Longrightarrow> lastCursor k xs = LastEvaluatedKey (last xs)"
  by (cases xs rule: rev_cases) (auto simp add: lastCursor_snoc)

lemma mergeResults_LastEvaluatedKey:
  "LastEvaluatedKey (mergeResults A (map Some ps) t) = lastCursor None ps"
  by (simp add: mergeResults_def finishMerge_def initialMemo_def foldl_mergeStep_LastEvaluatedKey)



text \<open>
  Claim C7, as stated, fails: after a page with a cursor and a last page without one, the
  aggregate still carries the first page's cursor.
\<close>

theorem aggregate_keeps_cursor_counterexample:
  "loadAll (exOp True)
   \<and> LastEvaluatedKey (last (pagesOf (calls (exRun True)))) = None
   \<and> outcome (exRun True)
       = Some (Inr \<lparr> Items = Some [[(''id'', ''1'')], [(''id'', ''2'')]], Count = Some 2,
                     ScannedCount = Some 2, ConsumedCapacity = None,
                     LastEvaluatedKey = Some [(''id'', ''1'')] \<rparr>)"
  by code_simp

text \<open>
  Claim C7, amended. A \<open>loadAll\<close> execution that returns ends with a page lacking
  \<open>LastEvaluatedKey\<close> and has cleared the operation's start key; the aggregate's
  \<open>LastEvaluatedKey\<close> is that of the page before the last, so it is absent exactly when
  the execution fetched a single page.
\<close>

theorem paginatedRequest_cursor_after_return:
  assumes "loadAll o'" and "outcome (paginatedRequest A n run g o') = Some (Inr agg)"
  shows "pagesOf (calls (paginatedRequest A n run g o')) \<noteq> []
     \<and> LastEvaluatedKey (last (pagesOf (calls (paginatedRequest A n run g o')))) = None
     \<and> ExclusiveStartKey (opRequest (opAfter (paginatedRequest A n run g o'))) = None
     \<and> LastEvaluatedKey agg =
         (case butlast (pagesOf (calls (paginatedRequest A n run g o'))) of
            [] \<Rightarrow> None
          | _ \<Rightarrow> LastEvaluatedKey (last (butlast (pagesOf (calls (paginatedRequest A n run g o'))))))
     \<and> ((LastEvaluatedKey agg = None)
          = (length (pagesOf (calls (paginatedRequest A n run g o'))) = 1))"
proof -
  let ?ps = "pagesOf (calls (paginatedRequest A n run g o'))"
  note pages = paginatedLoop_pages [of o' A n run g None "[]" True agg, folded paginatedRequest_def,
      OF assms]
  from pages have ne: "?ps \<noteq> []" by blast
  with pages have lastNone: "LastEvaluatedKey (last ?ps) = None"
    and front: "list_all (\<lambda>x. LastEvaluatedKey x \<noteq> None) (butlast ?ps)"
    and cleared: "ExclusiveStartKey (opRequest (opAfter (paginatedRequest A n run g o'))) = None"
    by blast+
  have "agg = mergeResults A (map Some ?ps) (opTableName o')"
    using paginatedLoop_outcome [of A n run g o' None "[]" True agg] assms(2)
    unfolding paginatedRequest_def by simp
  then have "LastEvaluatedKey agg = lastCursor None ?ps"
    by (simp add: mergeResults_LastEvaluatedKey)
  also have "\<dots> = lastCursor None (butlast ?ps @ [last ?ps])" using ne by simp
  also have "\<dots> = lastCursor None (butlast ?ps)"
    unfolding lastCursor_snoc using lastNone by simp
  finally have agg: "LastEvaluatedKey agg = lastCursor None (butlast ?ps)" .
  show ?thesis
  proof (cases "butlast ?ps")
    case Nil
    then have "length ?ps = 1" using ne by (cases ?ps) (simp_all split: if_splits)
    then show ?thesis using ne lastNone cleared agg Nil by simp
  next
    case (Cons x xs)
    then have bne: "butlast ?ps \<noteq> []" by simp
    then have "last (butlast ?ps) \<in> set (butlast ?ps)" by simp
    then have k: "LastEvaluatedKey (last (butlast ?ps)) \<noteq> None"
      using front by (simp add: list_all_iff)
    have "length ?ps \<noteq> 1" using bne by (cases ?ps) auto
    moreover have "LastEvaluatedKey agg = LastEvaluatedKey (last (butlast ?ps))"
      unfolding agg by (rule lastCursor_last [OF bne k])
    ultimately show ?thesis using ne lastNone cleared k Cons by simp
  qed
qed

theorem paginatedRequest_cursor_after_return_witness:
  "loadAll (exOp True)
   \<and> outcome (exRun True)
       = Some (Inr \<lparr> Items = Some [[(''id'', ''1'')], [(''id'', ''2'')]], Count = Some 2,
                     ScannedCount = Some 2, ConsumedCapacity = None,
                     LastEvaluatedKey = Some [(''id'', ''1'')] \<rparr>)
   \<and> ExclusiveStartKey (opRequest (opAfter (exRun True))) = None
   \<and> length (pagesOf (calls (exRun True))) \<noteq> 1"
proof -
  let ?agg = "\<lparr> Items = Some [[(''id'', ''1'')], [(''id'', ''2'')]], Count = Some 2,
                     ScannedCount = Some 2, ConsumedCapacity = None,
                     LastEvaluatedKey = Some [(''id'', ''1'')] \<rparr>"
  have a: "loadAll (exOp True)" by (simp add: exOp_def)
  have b: "outcome (exRun True) = Some (Inr ?agg)" by code_simp
  from paginatedRequest_cursor_after_return
    [of "exOp True" exactArith 5 "scripted (Inl (exError False))" exScript ?agg, folded exRun_def, OF a b]
  show ?thesis using a b by simp
qed

section \<open>Properties of the batch engine's loop\<close>

lemma logBatchCall_simps [simp]:
  "bcalls (logBatchCall c e) = c # bcalls e"
  "bpending (logBatchCall c e) = bpending e"
  "boutcome (logBatchCall c e) = boutcome e"
  by (simp_all add: logBatchCall_def)

lemma batchLoop_None:
  "batchLoop n run g t None rs
     = \<lparr> bcalls = [], bpending = None, boutcome = Some (Inr (mergeResponses t rs)) \<rparr>"
  by (cases n) simp_all

lemma batchLoop_first:
  "bcalls (batchLoop (Suc n) run g t (Some rq) rs) \<noteq> []
   \<and> fst (bcalls (batchLoop (Suc n) run g t (Some rq) rs) ! 0) = rq"
  by (auto split: prod.splits sum.splits)

lemma nextRequest_more:
  "UnprocessedKeys r = Some m \<Longrightarrow> m \<noteq> [] \<Longrightarrow> nextRequest r = Some \<lparr> RequestItems = m \<rparr>"
  by (simp add: nextRequest_def moreKeysToProcess_def)

lemma nextRequest_done:
  "\<not> moreKeysToProcess (UnprocessedKeys r) \<Longrightarrow> nextRequest r = None"
  by (auto simp add: nextRequest_def split: option.splits)

lemma nextRequest_None:
  "nextRequest r = None \<Longrightarrow> \<not> moreKeysToProcess (UnprocessedKeys r)"
  by (auto simp add: nextRequest_def moreKeysToProcess_def split: option.splits if_splits)

lemma batchLoop_errors:
  assumes "i < length (bcalls (batchLoop n run g t rq rs))"
    and "bcalls (batchLoop n run g t rq rs) ! i = (q, Inl err)"
  shows "(\<not> retryable err \<longrightarrow>
            Suc i = length (bcalls (batchLoop n run g t rq rs))
          \<and> boutcome (batchLoop n run g t rq rs) = Some (Inl err))
       \<and> (retryable err \<longrightarrow> Suc i < n \<longrightarrow>
            Suc i < length (bcalls (batchLoop n run g t rq rs))
          \<and> fst (bcalls (batchLoop n run g t rq rs) ! Suc i) = q)"
  using assms
proof (induction n arbitrary: i g rq rs)
  case 0
  then show ?case by (simp split: option.splits)
next
  case (Suc n)
  show ?case
  proof (cases rq)
    case None
    then show ?thesis using Suc.prems by simp
  next
    case (Some r)
    obtain a g' where run: "run g r = (a, g')" by (cases "run g r")
    show ?thesis
    proof (cases a)
      case (Inl e)
      show ?thesis
      proof (cases "retryable e")
        case False
        then show ?thesis using Suc.prems run Inl Some by simp
      next
        case re: True
        let ?rest = "batchLoop n run g' t (Some r) rs"
        have eq: "batchLoop (Suc n) run g t rq rs = logBatchCall (r, Inl e) ?rest"
          using run Inl re Some by simp
        show ?thesis
        proof (cases i)
          case 0
          have "q = r" "err = e" using Suc.prems(2) 0 unfolding eq by simp_all
          moreover have "0 < n \<Longrightarrow> bcalls ?rest \<noteq> [] \<and> fst (bcalls ?rest ! 0) = r"
            using batchLoop_first [of _ run g' t r rs] by (cases n) simp_all
          ultimately show ?thesis unfolding eq using 0 re by auto
        next
          case (Suc j)
          have "j < length (bcalls ?rest)" "bcalls ?rest ! j = (q, Inl err)"
            using Suc.prems Suc unfolding eq by simp_all
          from Suc.IH [OF this] show ?thesis unfolding eq using Suc by simp
        qed
      qed
    next
      case (Inr resp)
      let ?rest = "batchLoop n run g' t (nextRequest resp) (rs @ [resp])"
      have eq: "batchLoop (Suc n) run g t rq rs = logBatchCall (r, Inr resp) ?rest"
        using run Inr Some by simp
      show ?thesis
      proof (cases i)
        case 0
        then show ?thesis using Suc.prems(2) unfolding eq by simp
      next
        case (Suc j)
        have "j < length (bcalls ?rest)" "bcalls ?rest ! j = (q, Inl err)"
          using Suc.prems Suc unfolding eq by simp_all
        from Suc.IH [OF this] show ?thesis unfolding eq using Suc by simp
      qed
    qed
  qed
qed

lemma batchLoop_responses:
  assumes "i < length (bcalls (batchLoop n run g t rq rs))"
    and "bcalls (batchLoop n run g t rq rs) ! i = (q, Inr resp)"
  shows "(\<forall>m. UnprocessedKeys resp = Some m \<and> m \<noteq> [] \<and> Suc i < n \<longrightarrow>
            Suc i < length (bcalls (batchLoop n run g t rq rs))
          \<and> fst (bcalls (batchLoop n run g t rq rs) ! Suc i) = \<lparr> RequestItems = m \<rparr>)
       \<and> (\<not> moreKeysToProcess (UnprocessedKeys resp) \<longrightarrow>
            Suc i = length (bcalls (batchLoop n run g t rq rs))
          \<and> (\<exists>res. boutcome (batchLoop n run g t rq rs) = Some (Inr res)))"
  using assms
proof (induction n arbitrary: i g rq rs)
  case 0
  then show ?case by (simp split: option.splits)
next
  case (Suc n)
  show ?case
  proof (cases rq)
    case None
    then show ?thesis using Suc.prems by simp
  next
    case (Some r)
    obtain a g' where run: "run g r = (a, g')" by (cases "run g r")
    show ?thesis
    proof (cases a)
      case (Inl e)
      show ?thesis
      proof (cases "retryable e")
        case False
        then show ?thesis using Suc.prems run Inl Some by simp
      next
        case re: True
        let ?rest = "batchLoop n run g' t (Some r) rs"
        have eq: "batchLoop (Suc n) run g t rq rs = logBatchCall (r, Inl e) ?rest"
          using run Inl re Some by simp
        obtain j where j: "i = Suc j" using Suc.prems(2) unfolding eq by (cases i) simp_all
        have "j < length (bcalls ?rest)" "bcalls ?rest ! j = (q, Inr resp)"
          using Suc.prems j unfolding eq by simp_all
        from Suc.IH [OF this] show ?thesis unfolding eq using j by auto
      qed
    next
      case (Inr resp')
      let ?rest = "batchLoop n run g' t (nextRequest resp') (rs @ [resp'])"
      have eq: "batchLoop (Suc n) run g t rq rs = logBatchCall (r, Inr resp') ?rest"
        using run Inr Some by simp
      show ?thesis
      proof (cases i)
        case 0
        then have same: "resp = resp'" using Suc.prems(2) unfolding eq by simp
        have more: "\<And>m. UnprocessedKeys resp = Some m \<Longrightarrow> m \<noteq> [] \<Longrightarrow> 0 < n \<Longrightarrow>
                 bcalls ?rest \<noteq> [] \<and> fst (bcalls ?rest ! 0) = \<lparr> RequestItems = m \<rparr>"
        proof -
          fix m assume "UnprocessedKeys resp = Some m" "m \<noteq> []" "0 < n"
          then show "bcalls ?rest \<noteq> [] \<and> fst (bcalls ?rest ! 0) = \<lparr> RequestItems = m \<rparr>"
            using batchLoop_first [of _ run g' t "\<lparr> RequestItems = m \<rparr>" "rs @ [resp']"] same
            by (cases n) (simp_all add: nextRequest_more)
        qed
        have fin: "\<not> moreKeysToProcess (UnprocessedKeys resp) \<Longrightarrow>
                 ?rest = \<lparr> bcalls = [], bpending = None, boutcome = Some (Inr (mergeResponses t (rs @ [resp']))) \<rparr>"
          using same by (simp add: nextRequest_done batchLoop_None)
        show ?thesis unfolding eq using 0 more fin by auto
      next
        case (Suc j)
        have "j < length (bcalls ?rest)" "bcalls ?rest ! j = (q, Inr resp)"
          using Suc.prems Suc unfolding eq by simp_all
        from Suc.IH [OF this] show ?thesis unfolding eq using Suc by auto
      qed
    qed
  qed
qed

lemma batchLoop_returns:
  assumes "boutcome (batchLoop n run g t (Some rq) rs) = Some (Inr res)"
  shows "bcalls (batchLoop n run g t (Some rq) rs) \<noteq> []
       \<and> (\<exists>q r. last (bcalls (batchLoop n run g t (Some rq) rs)) = (q, Inr r)
                \<and> \<not> moreKeysToProcess (UnprocessedKeys r))"
  using assms
proof (induction n arbitrary: g rq rs)
  case 0
  then show ?case by simp
next
  case (Suc n)
  obtain a g' where run: "run g rq = (a, g')" by (cases "run g rq")
  show ?case
  proof (cases a)
    case (Inl e)
    show ?thesis
    proof (cases "retryable e")
      case False
      then show ?thesis using Suc.prems run Inl by simp
    next
      case re: True
      let ?rest = "batchLoop n run g' t (Some rq) rs"
      have eq: "batchLoop (Suc n) run g t (Some rq) rs = logBatchCall (rq, Inl e) ?rest"
        using run Inl re by simp
      have "boutcome ?rest = Some (Inr res)" using Suc.prems unfolding eq by simp
      from Suc.IH [OF this] show ?thesis unfolding eq by simp
    qed
  next
    case (Inr resp)
    let ?rest = "batchLoop n run g' t (nextRequest resp) (rs @ [resp])"
    have eq: "batchLoop (Suc n) run g t (Some rq) rs = logBatchCall (rq, Inr resp) ?rest"
      using run Inr by simp
    have out: "boutcome ?rest = Some (Inr res)" using Suc.prems unfolding eq by simp
    show ?thesis
    proof (cases "nextRequest resp")
      case None
      then show ?thesis unfolding eq using nextRequest_None [OF None]
        by (simp add: batchLoop_None)
    next
      case (Some rq')
      from Suc.IH [of g' rq' "rs @ [resp]"] out Some show ?thesis unfolding eq by simp
    qed
  qed
qed

text \<open>
  Claim C2. In the sub-protocol of one bucket, a response that leaves keys unprocessed is
  followed by a request that consists of exactly those unprocessed keys; a response
  that leaves none is the last call and the sub-protocol returns; and it returns only
  after such a response.
\<close>

theorem batchPaginatedRequest_unprocessed:
  "(\<forall>i q r m. i < length (bcalls (batchPaginatedRequest n run g request table))
        \<and> bcalls (batchPaginatedRequest n run g request table) ! i = (q, Inr r)
        \<and> UnprocessedKeys r = Some m \<and> m \<noteq> [] \<and> Suc i < n
      \<longrightarrow> Suc i < length (bcalls (batchPaginatedRequest n run g request table))
        \<and> fst (bcalls (batchPaginatedRequest n run g request table) ! Suc i)
            = \<lparr> RequestItems = m \<rparr>)
   \<and> (\<forall>i q r. i < length (bcalls (batchPaginatedRequest n run g request table))
        \<and> bcalls (batchPaginatedRequest n run g request table) ! i = (q, Inr r)
        \<and> \<not> moreKeysToProcess (UnprocessedKeys r)
      \<longrightarrow> Suc i = length (bcalls (batchPaginatedRequest n run g request table))
        \<and> (\<exists>res. boutcome (batchPaginatedRequest n run g request table) = Some (Inr res)))
   \<and> (\<forall>res. boutcome (batchPaginatedRequest n run g request table) = Some (Inr res)
      \<longrightarrow> bcalls (batchPaginatedRequest n run g request table) \<noteq> []
        \<and> (\<exists>q r. last (bcalls (batchPaginatedRequest n run g request table)) = (q, Inr r)
                 \<and> \<not> moreKeysToProcess (UnprocessedKeys r)))"
proof (intro conjI allI impI)
  fix i q r m
  assume "i < length (bcalls (batchPaginatedRequest n run g request table))
        \<and> bcalls (batchPaginatedRequest n run g request table) ! i = (q, Inr r)
        \<and> UnprocessedKeys r = Some m \<and> m \<noteq> [] \<and> Suc i < n"
  then show "Suc i < length (bcalls (batchPaginatedRequest n run g request table))"
    and "fst (bcalls (batchPaginatedRequest n run g request table) ! Suc i) = \<lparr> RequestItems = m \<rparr>"
    using batchLoop_responses [of i n run g "tableName table" "Some request" "[]" q r]
    unfolding batchPaginatedRequest_def by blast+
next
  fix i q r
  assume "i < length (bcalls (batchPaginatedRequest n run g request table))
        \<and> bcalls (batchPaginatedRequest n run g request table) ! i = (q, Inr r)
        \<and> \<not> moreKeysToProcess (UnprocessedKeys r)"
  then show "Suc i = length (bcalls (batchPaginatedRequest n run g request table))"
    and "\<exists>res. boutcome (batchPaginatedRequest n run g request table) = Some (Inr res)"
    using batchLoop_responses [of i n run g "tableName table" "Some request" "[]" q r]
    unfolding batchPaginatedRequest_def by blast+
next
  fix res
  assume "boutcome (batchPaginatedRequest n run g request table) = Some (Inr res)"
  then show "bcalls (batchPaginatedRequest n run g request table) \<noteq> []"
    and "\<exists>q r. last (bcalls (batchPaginatedRequest n run g request table)) = (q, Inr r)
                 \<and> \<not> moreKeysToProcess (UnprocessedKeys r)"
    using batchLoop_returns [of n run g "tableName table" request "[]" res]
    unfolding batchPaginatedRequest_def by blast+
qed

theorem batchPaginatedRequest_unprocessed_witness:
  "1 < length (bcalls exBatchRun)
   \<and> bcalls exBatchRun ! 1
       = (exBatchRequest,
          Inr \<lparr> Responses = Some [(''accounts'', [[(''email'', ''test'')]])],
                UnprocessedKeys = Some exUnprocessed \<rparr>)
   \<and> exUnprocessed \<noteq> []
   \<and> fst (bcalls exBatchRun ! Suc 1) = \<lparr> RequestItems = exUnprocessed \<rparr>
   \<and> bcalls exBatchRun ! 2
       = (\<lparr> RequestItems = exUnprocessed \<rparr>,
          Inr \<lparr> Responses = Some [(''accounts'', [[(''email'', ''foo'')]])],
                UnprocessedKeys = None \<rparr>)
   \<and> Suc 2 = length (bcalls exBatchRun)
   \<and> boutcome exBatchRun
       = Some (Inr \<lparr> MergedResponses =
                       [(''accounts'', [[(''email'', ''test'')], [(''email'', ''foo'')]])],
                     MergedConsumedCapacity = [] \<rparr>)
   \<and> bcalls exBatchRun \<noteq> []"
proof -
  let ?r1 = "\<lparr> Responses = Some [(''accounts'', [[(''email'', ''test'')]])],
                UnprocessedKeys = Some exUnprocessed \<rparr>"
  let ?r2 = "\<lparr> Responses = Some [(''accounts'', [[(''email'', ''foo'')]])],
                UnprocessedKeys = None \<rparr>"
  let ?res = "\<lparr> MergedResponses =
                       [(''accounts'', [[(''email'', ''test'')], [(''email'', ''foo'')]])],
                     MergedConsumedCapacity = [] \<rparr>"
  note th = batchPaginatedRequest_unprocessed
    [of 5 "scripted (Inl (exError False))" exBatchScript exBatchRequest exTable,
     folded exBatchRun_def]
  have a: "1 < length (bcalls exBatchRun)" by code_simp
  have b: "bcalls exBatchRun ! 1 = (exBatchRequest, Inr ?r1)" by code_simp
  have c: "UnprocessedKeys ?r1 = Some exUnprocessed" "exUnprocessed \<noteq> []" "Suc 1 < (5::nat)"
    by (simp_all add: exUnprocessed_def)
  have d: "2 < length (bcalls exBatchRun)" by code_simp
  have e: "bcalls exBatchRun ! 2 = (\<lparr> RequestItems = exUnprocessed \<rparr>, Inr ?r2)" by code_simp
  have f: "\<not> moreKeysToProcess (UnprocessedKeys ?r2)" by (simp add: moreKeysToProcess_def)
  have g: "boutcome exBatchRun = Some (Inr ?res)" by code_simp
  from th a b c have 1: "fst (bcalls exBatchRun ! Suc 1) = \<lparr> RequestItems = exUnprocessed \<rparr>"
    by blast
  from th d e f have 2: "Suc 2 = length (bcalls exBatchRun)" by blast
  from th g have 3: "bcalls exBatchRun \<noteq> []" by blast
  show ?thesis using a b c(2) e g 1 2 3 by simp
qed

section \<open>The requests a sub-protocol sends\<close>

lemma sentRequests_simps [simp]:
  "sentRequests [] None = []"
  "sentRequests [] (Some rq) = [rq]"
  "sentRequests (c # cs) p = fst c # sentRequests cs p"
  by (simp_all add: sentRequests_def)

lemma sentRequests_nth:
  "i < length cs \<Longrightarrow> sentRequests cs p ! i = fst (cs ! i)"
  by (simp add: sentRequests_def nth_append)

lemma batchLoop_Suc:
  "batchLoop (Suc n) run g t (Some rq) rs =
     (case fst (run g rq) of
        Inl err \<Rightarrow>
          if \<not> retryable err
          then \<lparr> bcalls = [(rq, Inl err)], bpending = None, boutcome = Some (Inl err) \<rparr>
          else logBatchCall (rq, Inl err) (batchLoop n run (snd (run g rq)) t (Some rq) rs)
      | Inr response \<Rightarrow>
          logBatchCall (rq, Inr response)
            (batchLoop n run (snd (run g rq)) t (nextRequest response) (rs @ [response])))"
  by (simp split: sum.splits prod.splits)

text \<open>A sub-protocol that has a request to send has sent it.\<close>

lemma batchLoop_sent_first:
  "sentRequests (bcalls (batchLoop n run g t (Some rq) rs))
                (bpending (batchLoop n run g t (Some rq) rs)) \<noteq> []
   \<and> sentRequests (bcalls (batchLoop n run g t (Some rq) rs))
                  (bpending (batchLoop n run g t (Some rq) rs)) ! 0 = rq"
proof (cases n)
  case 0
  then show ?thesis by simp
next
  case (Suc m)
  obtain a g' where run: "run g rq = (a, g')" by (cases "run g rq")
  show ?thesis unfolding Suc batchLoop_Suc run fst_conv snd_conv
    by (cases a) simp_all
qed

text \<open>
  More answers only extend what a sub-protocol has done: its calls after \<open>k\<close> answers
  are the first \<open>k\<close> of its calls after more, and once its promise is settled nothing
  changes any more.
\<close>

lemma batchLoop_take:
  "k \<le> n \<Longrightarrow>
   bcalls (batchLoop k run g t rq rs) = take k (bcalls (batchLoop n run g t rq rs))"
proof (induction k arbitrary: n g rq rs)
  case 0
  show ?case by (simp split: option.splits)
next
  case (Suc k)
  then obtain m where n: "n = Suc m" and km: "k \<le> m" by (cases n) simp_all
  show ?case
  proof (cases rq)
    case None
    then show ?thesis by (simp add: batchLoop_None)
  next
    case (Some r)
    obtain a g' where run: "run g r = (a, g')" by (cases "run g r")
    show ?thesis
    proof (cases a)
      case (Inl e)
      show ?thesis
        unfolding n Some batchLoop_Suc run fst_conv snd_conv Inl
        using Suc.IH [OF km, of g' "Some r" rs] by simp
    next
      case (Inr resp)
      show ?thesis
        unfolding n Some batchLoop_Suc run fst_conv snd_conv Inr
        using Suc.IH [OF km, of g' "nextRequest resp" "rs @ [resp]"] by simp
    qed
  qed
qed

lemma batchLoop_stable:
  "boutcome (batchLoop k run g t rq rs) = Some x \<Longrightarrow> k \<le> n \<Longrightarrow>
   batchLoop n run g t rq rs = batchLoop k run g t rq rs"
proof (induction k arbitrary: n g rq rs)
  case 0
  then have "rq = None" by (cases rq) simp_all
  then show ?case by (simp add: batchLoop_None)
next
  case (Suc k)
  then obtain m where n: "n = Suc m" and km: "k \<le> m" by (cases n) simp_all
  show ?case
  proof (cases rq)
    case None
    then show ?thesis by (simp add: batchLoop_None)
  next
    case (Some r)
    obtain a g' where run: "run g r = (a, g')" by (cases "run g r")
    show ?thesis
    proof (cases a)
      case (Inl e)
      show ?thesis
      proof (cases "retryable e")
        case False
        then show ?thesis unfolding n Some batchLoop_Suc run fst_conv snd_conv Inl by simp
      next
        case True
        have "boutcome (batchLoop k run g' t (Some r) rs) = Some x"
          using Suc.prems(1) True unfolding Some batchLoop_Suc run fst_conv snd_conv Inl by simp
        from Suc.IH [OF this km] show ?thesis
          unfolding n Some batchLoop_Suc run fst_conv snd_conv Inl by simp
      qed
    next
      case (Inr resp)
      have "boutcome (batchLoop k run g' t (nextRequest resp) (rs @ [resp])) = Some x"
        using Suc.prems(1) unfolding Some batchLoop_Suc run fst_conv snd_conv Inr by simp
      from Suc.IH [OF this km] show ?thesis
        unfolding n Some batchLoop_Suc run fst_conv snd_conv Inr by simp
    qed
  qed
qed

lemma batchLoop_length: "length (bcalls (batchLoop n run g t rq rs)) \<le> n"
proof (induction n arbitrary: g rq rs)
  case 0
  show ?case by (simp split: option.splits)
next
  case (Suc n)
  show ?case
  proof (cases rq)
    case None
    then show ?thesis by simp
  next
    case (Some r)
    obtain a g' where run: "run g r = (a, g')" by (cases "run g r")
    show ?thesis
    proof (cases a)
      case (Inl e)
      then show ?thesis using Some run Suc.IH [of g' "Some r" rs]
        by (cases "retryable e") simp_all
    next
      case (Inr resp)
      then show ?thesis using Some run Suc.IH [of g' "nextRequest resp" "rs @ [resp]"] by simp
    qed
  qed
qed

text \<open>
  A request is in flight exactly while the promise is not settled, and then every answer
  given so far was used for a call.
\<close>

lemma batchLoop_pending:
  "(bpending (batchLoop n run g t rq rs) = None)
     = (boutcome (batchLoop n run g t rq rs) \<noteq> None)
   \<and> (boutcome (batchLoop n run g t rq rs) = None
      \<longrightarrow> length (bcalls (batchLoop n run g t rq rs)) = n)"
proof (induction n arbitrary: g rq rs)
  case 0
  show ?case by (simp split: option.splits)
next
  case (Suc n)
  show ?case
  proof (cases rq)
    case None
    then show ?thesis by simp
  next
    case (Some r)
    obtain a g' where run: "run g r = (a, g')" by (cases "run g r")
    show ?thesis
    proof (cases a)
      case (Inl e)
      then show ?thesis using Some run Suc.IH [of g' "Some r" rs]
        by (cases "retryable e") simp_all
    next
      case (Inr resp)
      then show ?thesis using Some run Suc.IH [of g' "nextRequest resp" "rs @ [resp]"] by simp
    qed
  qed
qed

text \<open>
  What follows an answer: after a retryable failure the same request is sent again; a
  failure that is not retryable ends the sub-protocol, which is rejected with it; after a
  response the next request is the one the response calls for, and without one the
  sub-protocol returns.
\<close>

lemma batchLoop_sent:
  assumes "i < length (bcalls (batchLoop n run g t rq rs))"
    and "bcalls (batchLoop n run g t rq rs) ! i = (q, a)"
  shows "(\<forall>e. a = Inl e \<and> retryable e \<longrightarrow>
            Suc i < length (sentRequests (bcalls (batchLoop n run g t rq rs))
                                         (bpending (batchLoop n run g t rq rs)))
          \<and> sentRequests (bcalls (batchLoop n run g t rq rs))
                         (bpending (batchLoop n run g t rq rs)) ! Suc i = q)
       \<and> (\<forall>e. a = Inl e \<and> \<not> retryable e \<longrightarrow>
            Suc i = length (bcalls (batchLoop n run g t rq rs))
          \<and> bpending (batchLoop n run g t rq rs) = None
          \<and> boutcome (batchLoop n run g t rq rs) = Some (Inl e))
       \<and> (\<forall>r q'. a = Inr r \<and> nextRequest r = Some q' \<longrightarrow>
            Suc i < length (sentRequests (bcalls (batchLoop n run g t rq rs))
                                         (bpending (batchLoop n run g t rq rs)))
          \<and> sentRequests (bcalls (batchLoop n run g t rq rs))
                         (bpending (batchLoop n run g t rq rs)) ! Suc i = q')
       \<and> (\<forall>r. a = Inr r \<and> nextRequest r = None \<longrightarrow>
            Suc i = length (bcalls (batchLoop n run g t rq rs))
          \<and> bpending (batchLoop n run g t rq rs) = None
          \<and> (\<exists>res. boutcome (batchLoop n run g t rq rs) = Some (Inr res)))"
  using assms
proof (induction n arbitrary: i g rq rs)
  case 0
  then show ?case by (simp split: option.splits)
next
  case (Suc n)
  show ?case
  proof (cases rq)
    case None
    then show ?thesis using Suc.prems by simp
  next
    case (Some r0)
    obtain a0 g' where run: "run g r0 = (a0, g')" by (cases "run g r0")
    show ?thesis
    proof (cases a0)
      case (Inl e0)
      show ?thesis
      proof (cases "retryable e0")
        case False
        then show ?thesis
          using Suc.prems unfolding Some batchLoop_Suc run fst_conv snd_conv Inl by auto
      next
        case True
        let ?rest = "batchLoop n run g' t (Some r0) rs"
        have eq: "batchLoop (Suc n) run g t rq rs = logBatchCall (r0, Inl e0) ?rest"
          unfolding Some batchLoop_Suc run fst_conv snd_conv Inl using True by simp
        show ?thesis
        proof (cases i)
          case 0
          then have "q = r0" "a = Inl e0" using Suc.prems(2) unfolding eq by simp_all
          then show ?thesis
            unfolding eq using 0 True batchLoop_sent_first [of n run g' t r0 rs] by simp
        next
          case (Suc j)
          then have "j < length (bcalls ?rest)" "bcalls ?rest ! j = (q, a)"
            using Suc.prems unfolding eq by simp_all
          from Suc.IH [OF this] show ?thesis unfolding eq Suc by auto
        qed
      qed
    next
      case (Inr resp)
      let ?rest = "batchLoop n run g' t (nextRequest resp) (rs @ [resp])"
      have eq: "batchLoop (Suc n) run g t rq rs = logBatchCall (r0, Inr resp) ?rest"
        unfolding Some batchLoop_Suc run fst_conv snd_conv Inr by simp
      show ?thesis
      proof (cases i)
        case 0
        then have qa: "q = r0" "a = Inr resp" using Suc.prems(2) unfolding eq by simp_all
        show ?thesis
        proof (cases "nextRequest resp")
          case None
          then show ?thesis unfolding eq using 0 qa by (simp add: batchLoop_None)
        next
          case (Some q')
          then show ?thesis
            unfolding eq using 0 qa batchLoop_sent_first [of n run g' t q' "rs @ [resp]"]
            by simp
        qed
      next
        case (Suc j)
        then have "j < length (bcalls ?rest)" "bcalls ?rest ! j = (q, a)"
          using Suc.prems unfolding eq by simp_all
        from Suc.IH [OF this] show ?thesis unfolding eq Suc by auto
      qed
    qed
  qed
qed

section \<open>Properties of the bucketing\<close>

lemma ceil_step: "(L::nat) \<noteq> 0 \<Longrightarrow> Suc ((L - 100 + 99) div 100) = (L + 99) div 100"
proof (cases "100 \<le> L")
  case True
  then obtain k where "L = k + 100" using le_Suc_ex by (metis add.commute)
  then show ?thesis by simp
next
  case False
  assume "L \<noteq> 0"
  with False have small: "L - 100 = 0" "100 * 1 \<le> L + 99" "L + 99 < 100 * Suc 1" by simp_all
  have "(L + 99) div 100 = 1" by (rule div_nat_eqI) (use small in simp_all)
  then show ?thesis using small(1) by simp
qed

lemma chunks_Nil [simp]: "chunks [] = []"
  by (subst chunks.simps) simp

lemma concat_chunks: "concat (chunks xs) = xs"
proof (induction xs rule: chunks.induct)
  case (1 xs)
  show ?case
  proof (cases "length xs \<noteq> 0")
    case True
    then have "concat (chunks xs) = take 100 xs @ concat (chunks (drop 100 xs))"
      by (subst chunks.simps) simp
    then show ?thesis using 1 True by simp
  next
    case False
    then show ?thesis by simp
  qed
qed

lemma length_chunks: "length (chunks xs) = (length xs + 99) div 100"
proof (induction xs rule: chunks.induct)
  case (1 xs)
  show ?case
  proof (cases "length xs \<noteq> 0")
    case True
    then have "length (chunks xs) = Suc (length (chunks (drop 100 xs)))"
      by (subst chunks.simps) simp
    then have "length (chunks xs) = Suc ((length xs - 100 + 99) div 100)"
      using 1 True by simp
    moreover have "Suc ((length xs - 100 + 99) div 100) = (length xs + 99) div 100"
      using True by (rule ceil_step)
    ultimately show ?thesis by simp
  next
    case False
    then show ?thesis by simp
  qed
qed

lemma chunks_nth:
  "i < length (chunks xs) \<Longrightarrow> chunks xs ! i = take 100 (drop (100 * i) xs)"
proof (induction xs arbitrary: i rule: chunks.induct)
  case (1 xs)
  show ?case
  proof (cases "length xs \<noteq> 0")
    case True
    then have eq: "chunks xs = take 100 xs # chunks (drop 100 xs)"
      by (subst chunks.simps) simp
    show ?thesis
    proof (cases i)
      case 0
      then show ?thesis using eq by simp
    next
      case (Suc j)
      then have "j < length (chunks (drop 100 xs))" using "1.prems" eq by simp
      from "1.IH" [OF True this] show ?thesis using eq Suc by (simp add: add.commute)
    qed
  next
    case False
    then show ?thesis using "1.prems" by simp
  qed
qed

lemma chunks_sizes:
  assumes "i < length (chunks xs)"
  shows "(Suc i < length (chunks xs) \<longrightarrow> length (chunks xs ! i) = 100)
       \<and> 0 < length (chunks xs ! i) \<and> length (chunks xs ! i) \<le> 100"
proof -
  have "i < (length xs + 99) div 100" using assms by (simp add: length_chunks)
  then have lt: "100 * i < length xs" by arith
  have "Suc i < length (chunks xs) \<Longrightarrow> 100 * i + 100 \<le> length xs"
    unfolding length_chunks by arith
  then show ?thesis using lt by (auto simp add: chunks_nth [OF assms])
qed

lemma bucketsLoop_chunks:
  "bucketsLoop h keys bs = (h\<lparr> arrays := (arrays h)(keys := []) \<rparr>, bs @ chunks (arrays h keys))"
proof (induction h keys bs rule: bucketsLoop.induct)
  case (1 h keys bs)
  show ?case
  proof (cases "length (arrays h keys) \<noteq> 0")
    case True
    have c: "chunks (arrays h keys) = take 100 (arrays h keys) # chunks (drop 100 (arrays h keys))"
      using True by (subst chunks.simps) simp
    have "bucketsLoop h keys bs =
            bucketsLoop (fst (splice h keys 0 100)) keys (bs @ [snd (splice h keys 0 100)])"
      using True by (subst bucketsLoop.simps) simp
    also have "\<dots> = (h\<lparr> arrays := (arrays h)(keys := []) \<rparr>, bs @ chunks (arrays h keys))"
      unfolding "1.IH" [OF True] c by (simp add: splice_def)
    finally show ?thesis .
  next
    case False
    then have "arrays h keys = []" by simp
    then have "(arrays h)(keys := []) = arrays h" by (metis fun_upd_triv)
    then show ?thesis using False by (subst bucketsLoop.simps) simp
  qed
qed

lemma buckets_chunks:
  "buckets h keys = (h\<lparr> arrays := (arrays h)(keys := []) \<rparr>, chunks (arrays h keys))"
  by (simp add: buckets_def bucketsLoop_chunks)

section \<open>Properties of getItems\<close>

lemma getItems_snd:
  "snd (getItems sched table serializer run gs h keys options) =
     \<lparr> bucketCalls = map bcalls
         (mapBuckets (count_list sched) run gs 0 (chunks (arrays h keys)) table serializer
            (optionsOf h options)),
       inFlight = map bpending
         (mapBuckets (count_list sched) run gs 0 (chunks (arrays h keys)) table serializer
            (optionsOf h options)),
       result =
         (case firstRejection
                 (bucketOutcome run gs (chunks (arrays h keys)) table serializer
                    (optionsOf h options)) [] sched of
            Some err \<Rightarrow> Some (Inl err)
          | None \<Rightarrow>
              (case fulfilled
                      (mapBuckets (count_list sched) run gs 0 (chunks (arrays h keys)) table
                         serializer (optionsOf h options)) of
                 None \<Rightarrow> None
               | Some xs \<Rightarrow> Some (Inr (concat xs)))) \<rparr>"
  by (cases options)
     (simp_all add: getItems_def clone_def newObject_def buckets_chunks optionsOf_def Let_def
        cong: option.case_cong)

lemma getItems_fst:
  "fst (getItems sched table serializer run gs h keys options) =
     (case options of
        Some r \<Rightarrow> h\<lparr> arrays := (arrays h)(nextRef h := []), nextRef := Suc (nextRef h) \<rparr>
      | None \<Rightarrow> h\<lparr> objects := (objects h)(nextRef h := []),
                   arrays := (arrays h)(Suc (nextRef h) := []),
                   nextRef := Suc (Suc (nextRef h)) \<rparr>)"
  by (cases options)
     (simp_all add: getItems_def clone_def newObject_def buckets_chunks Let_def)

lemma mapBuckets_length [simp]:
  "length (mapBuckets answered run gs i bs table serializer opts) = length bs"
  by (induction bs arbitrary: i) simp_all

lemma mapBuckets_nth:
  "b < length bs \<Longrightarrow>
   mapBuckets answered run gs i bs table serializer opts ! b
     = initialBatchGetItems (answered (i + b)) run (gs (i + b)) (bs ! b) table serializer opts"
proof (induction bs arbitrary: i b)
  case Nil
  then show ?case by simp
next
  case (Cons x xs)
  then show ?case by (cases b) simp_all
qed

lemma initialBatchGetItems_bcalls:
  "bcalls (initialBatchGetItems n run g keys table serializer opts)
     = bcalls (batchLoop n run g (tableName table)
         (Some (buildInitialGetItemsRequest (tableName table)
                  (map (buildKey serializer) keys) opts)) [])"
  by (simp add: initialBatchGetItems_def batchPaginatedRequest_def serializeKeys_def Let_def)

lemma initialBatchGetItems_bpending:
  "bpending (initialBatchGetItems n run g keys table serializer opts)
     = bpending (batchLoop n run g (tableName table)
         (Some (buildInitialGetItemsRequest (tableName table)
                  (map (buildKey serializer) keys) opts)) [])"
  by (simp add: initialBatchGetItems_def batchPaginatedRequest_def serializeKeys_def Let_def)

lemma initialBatchGetItems_rejected:
  "(boutcome (initialBatchGetItems n run g keys table serializer opts) = Some (Inl e))
     = (boutcome (batchLoop n run g (tableName table)
         (Some (buildInitialGetItemsRequest (tableName table)
                  (map (buildKey serializer) keys) opts)) []) = Some (Inl e))"
  by (auto simp add: initialBatchGetItems_def batchPaginatedRequest_def serializeKeys_def Let_def
      split: option.splits sum.splits)

lemma getItems_lengths [simp]:
  "length (bucketCalls (snd (getItems sched table serializer run gs h keys options)))
     = length (chunks (arrays h keys))"
  "length (inFlight (snd (getItems sched table serializer run gs h keys options)))
     = length (chunks (arrays h keys))"
  by (simp_all add: getItems_snd)

lemma getItems_bucketCalls_nth:
  assumes "b < length (chunks (arrays h keys))"
  shows "bucketCalls (snd (getItems sched table serializer run gs h keys options)) ! b
     = bcalls (batchLoop (count_list sched b) run (gs b) (tableName table)
         (Some (buildInitialGetItemsRequest (tableName table)
                  (map (buildKey serializer) (chunks (arrays h keys) ! b))
                  (optionsOf h options))) [])"
  using assms
  by (simp add: getItems_snd mapBuckets_nth initialBatchGetItems_bcalls)

lemma getItems_inFlight_nth:
  assumes "b < length (chunks (arrays h keys))"
  shows "inFlight (snd (getItems sched table serializer run gs h keys options)) ! b
     = bpending (batchLoop (count_list sched b) run (gs b) (tableName table)
         (Some (buildInitialGetItemsRequest (tableName table)
                  (map (buildKey serializer) (chunks (arrays h keys) ! b))
                  (optionsOf h options))) [])"
  using assms
  by (simp add: getItems_snd mapBuckets_nth initialBatchGetItems_bpending)

lemma map2_same: "map2 f (map g xs) (map h xs) = map (\<lambda>x. f (g x) (h x)) xs"
  by (induction xs) simp_all

lemma getItems_bucketRequests:
  "bucketRequests (snd (getItems sched table serializer run gs h keys options))
     = map (\<lambda>e. sentRequests (bcalls e) (bpending e))
         (mapBuckets (count_list sched) run gs 0 (chunks (arrays h keys)) table serializer
            (optionsOf h options))"
  by (simp add: bucketRequests_def getItems_snd map2_same)

text \<open>While no bucket fails, the promise of \<open>Promise.map\<close> is not rejected.\<close>

lemma firstRejection_None:
  "(\<And>i k e. outcomeAfter i k \<noteq> Some (Inl e)) \<Longrightarrow> firstRejection outcomeAfter seen sched = None"
proof (induction sched arbitrary: seen)
  case Nil
  show ?case by simp
next
  case (Cons a sched)
  have "\<And>e. outcomeAfter a (Suc (count_list seen a)) \<noteq> Some (Inl e)" by (rule Cons.prems)
  then show ?case using Cons.IH [OF Cons.prems, of "seen @ [a]"]
    by (simp split: option.splits sum.splits)
qed

lemma requestKeys_initial:
  "map_of opts ''Keys'' = None \<Longrightarrow> requestKeys (buildInitialGetItemsRequest t ks opts) = ks"
  by (simp add: requestKeys_def buildInitialGetItemsRequest_def)

text \<open>A bucket whose first request the gateway serves in full.\<close>

lemma initialBatchGetItems_full:
  assumes "answersInFull (tableName table)
             (buildInitialGetItemsRequest (tableName table) (map (buildKey serializer) keys) opts)
             (fst (run g (buildInitialGetItemsRequest (tableName table)
                            (map (buildKey serializer) keys) opts)))"
    and "map_of opts ''Keys'' = None"
  shows "map (\<lambda>rq. length (requestKeys rq))
           (sentRequests (bcalls (initialBatchGetItems k run g keys table serializer opts))
                         (bpending (initialBatchGetItems k run g keys table serializer opts)))
           = [length keys]"
    and "boutcome (initialBatchGetItems k run g keys table serializer opts) \<noteq> Some (Inl e)"
    and "0 < k \<Longrightarrow>
         map (\<lambda>c. length (requestKeys (fst c)))
           (bcalls (initialBatchGetItems k run g keys table serializer opts)) = [length keys]
         \<and> bpending (initialBatchGetItems k run g keys table serializer opts) = None
         \<and> (\<exists>items. boutcome (initialBatchGetItems k run g keys table serializer opts)
                       = Some (Inr items) \<and> length items = length keys)"
proof -
  let ?rq = "buildInitialGetItemsRequest (tableName table) (map (buildKey serializer) keys) opts"
  have keys: "requestKeys ?rq = map (buildKey serializer) keys"
    using assms(2) by (rule requestKeys_initial)
  obtain a g' where run: "run g ?rq = (a, g')" by (cases "run g ?rq")
  with assms obtain r where a: "a = Inr r" by (cases a) (simp_all add: answersInFull_def)
  from assms run a have fin: "\<not> moreKeysToProcess (UnprocessedKeys r)"
    by (simp add: answersInFull_def)
  from assms(1) run a keys obtain m xs where
    m: "Responses r = Some m" "map_of m (tableName table) = Some xs" "length xs = length keys"
    by (auto simp add: answersInFull_def split: option.splits)
  have zero: "batchLoop 0 run g (tableName table) (Some ?rq) []
     = \<lparr> bcalls = [], bpending = Some ?rq, boutcome = None \<rparr>" by simp
  have loop: "batchLoop (Suc j) run g (tableName table) (Some ?rq) []
     = \<lparr> bcalls = [(?rq, Inr r)], bpending = None,
         boutcome = Some (Inr (mergeResponses (tableName table) [r])) \<rparr>" for j
    unfolding batchLoop_Suc run fst_conv snd_conv a
    by (simp add: nextRequest_done [OF fin] batchLoop_None logBatchCall_def)
  have merged: "map_of (MergedResponses (mergeResponses (tableName table) [r])) (tableName table)
     = Some xs"
    using m by (simp add: mergeResponses_def mergeResponse_def)
  show "map (\<lambda>rq. length (requestKeys rq))
           (sentRequests (bcalls (initialBatchGetItems k run g keys table serializer opts))
                         (bpending (initialBatchGetItems k run g keys table serializer opts)))
           = [length keys]"
    unfolding initialBatchGetItems_bcalls initialBatchGetItems_bpending
    using zero loop keys by (cases k) simp_all
  show "boutcome (initialBatchGetItems k run g keys table serializer opts) \<noteq> Some (Inl e)"
    unfolding initialBatchGetItems_rejected using zero loop by (cases k) simp_all
  show "map (\<lambda>c. length (requestKeys (fst c)))
           (bcalls (initialBatchGetItems k run g keys table serializer opts)) = [length keys]
         \<and> bpending (initialBatchGetItems k run g keys table serializer opts) = None
         \<and> (\<exists>items. boutcome (initialBatchGetItems k run g keys table serializer opts)
                       = Some (Inr items) \<and> length items = length keys)" if "0 < k"
  proof -
    from that obtain j where k: "k = Suc j" by (cases k) simp_all
    show ?thesis
      unfolding k using loop [of j] merged m(3) keys
      by (simp add: initialBatchGetItems_def batchPaginatedRequest_def serializeKeys_def Let_def)
  qed
qed

lemma mapBuckets_full:
  assumes "\<forall>i rq. answersInFull (tableName table) rq (fst (run (gs i) rq))"
    and "map_of opts ''Keys'' = None"
  shows "map (\<lambda>e. map (\<lambda>rq. length (requestKeys rq)) (sentRequests (bcalls e) (bpending e)))
           (mapBuckets answered run gs i bs table serializer opts)
           = map (\<lambda>b. [length b]) bs"
    and "(\<forall>j. j < length bs \<longrightarrow> 0 < answered (i + j)) \<Longrightarrow>
         map (map (\<lambda>c. length (requestKeys (fst c))))
           (map bcalls (mapBuckets answered run gs i bs table serializer opts))
           = map (\<lambda>b. [length b]) bs
         \<and> map bpending (mapBuckets answered run gs i bs table serializer opts)
           = map (\<lambda>b. None) bs
         \<and> (\<exists>xs. fulfilled (mapBuckets answered run gs i bs table serializer opts) = Some xs
               \<and> map length xs = map length bs)"
proof -
  have full: "answersInFull (tableName table)
             (buildInitialGetItemsRequest (tableName table) (map (buildKey serializer) b) opts)
             (fst (run (gs i) (buildInitialGetItemsRequest (tableName table)
                            (map (buildKey serializer) b) opts)))" for i b
    using assms(1) by blast
  show "map (\<lambda>e. map (\<lambda>rq. length (requestKeys rq)) (sentRequests (bcalls e) (bpending e)))
           (mapBuckets answered run gs i bs table serializer opts)
           = map (\<lambda>b. [length b]) bs"
  proof (induction bs arbitrary: i)
    case Nil
    show ?case by simp
  next
    case (Cons b bs)
    show ?case
      using initialBatchGetItems_full(1)
          [where table=table and serializer=serializer and keys=b and opts=opts and run=run
             and g="gs i" and k="answered i", OF full assms(2)]
        Cons.IH [of "Suc i"]
      by simp
  qed
  show "map (map (\<lambda>c. length (requestKeys (fst c))))
           (map bcalls (mapBuckets answered run gs i bs table serializer opts))
           = map (\<lambda>b. [length b]) bs
         \<and> map bpending (mapBuckets answered run gs i bs table serializer opts)
           = map (\<lambda>b. None) bs
         \<and> (\<exists>xs. fulfilled (mapBuckets answered run gs i bs table serializer opts) = Some xs
               \<and> map length xs = map length bs)"
    if "\<forall>j. j < length bs \<longrightarrow> 0 < answered (i + j)"
    using that
  proof (induction bs arbitrary: i)
    case Nil
    show ?case by simp
  next
    case (Cons b bs)
    from Cons.prems have pos: "0 < answered i" by auto
    from Cons.prems have "\<forall>j. j < length bs \<longrightarrow> 0 < answered (Suc i + j)" by auto
    from Cons.IH [OF this]
    have rest: "map (map (\<lambda>c. length (requestKeys (fst c))))
           (map bcalls (mapBuckets answered run gs (Suc i) bs table serializer opts))
           = map (\<lambda>b. [length b]) bs"
      and restp: "map bpending (mapBuckets answered run gs (Suc i) bs table serializer opts)
           = map (\<lambda>b. None) bs"
      and "\<exists>xs. fulfilled (mapBuckets answered run gs (Suc i) bs table serializer opts) = Some xs
               \<and> map length xs = map length bs"
      by simp_all
    then obtain xs where
      xs: "fulfilled (mapBuckets answered run gs (Suc i) bs table serializer opts) = Some xs"
        "map length xs = map length bs"
      by auto
    from initialBatchGetItems_full(3)
      [where table=table and serializer=serializer and keys=b and opts=opts and run=run
         and g="gs i" and k="answered i", OF full assms(2) pos]
    have one: "map (\<lambda>c. length (requestKeys (fst c)))
           (bcalls (initialBatchGetItems (answered i) run (gs i) b table serializer opts))
           = [length b]"
      and onep: "bpending (initialBatchGetItems (answered i) run (gs i) b table serializer opts)
           = None"
      and "\<exists>items. boutcome (initialBatchGetItems (answered i) run (gs i) b table serializer opts)
                = Some (Inr items) \<and> length items = length b"
      by simp_all
    then obtain items where
      out: "boutcome (initialBatchGetItems (answered i) run (gs i) b table serializer opts)
                = Some (Inr items)" "length items = length b"
      by auto
    have "fulfilled (mapBuckets answered run gs i (b # bs) table serializer opts)
            = Some (items # xs)"
      using out(1) xs(1) by simp
    then show ?case using one onep rest restp out(2) xs(2) by simp
  qed
qed

lemma chunks_250: "length xs = 250 \<Longrightarrow> map length (chunks xs) = [100, 100, 50]"
  by (simp add: chunks.simps [of xs] chunks.simps [of "drop 100 xs"] chunks.simps [of "drop 200 xs"]
      chunks.simps [of "drop 300 xs"])

text \<open>\<open>internals.buckets\<close> empties the array it is given.\<close>

lemma buckets_empties_argument: "arrays (fst (buckets h keys)) keys = []"
  by (simp add: buckets_chunks)

text \<open>
  Claim C4. \<open>internals.buckets\<close> cuts the keys, in order, into
  \<open>ceil(N/100)\<close> buckets, each of 100 keys except possibly the last, which has between
  1 and 100; \<open>getItems\<close> runs one sub-protocol per bucket, whose first request asks for
  the keys of that bucket, unless the caller's options have a field \<open>Keys\<close> of their
  own. For 250 keys, options without such a field and a gateway that serves every request
  in full, exactly three requests are sent, of 100, 100 and 50 keys, in whatever order
  the answers arrive; once each of the three buckets has its answer, nothing is in flight
  and the result has 250 items.
\<close>

theorem getItems_buckets:
  "concat (snd (buckets h keys)) = arrays h keys
   \<and> length (snd (buckets h keys)) = (length (arrays h keys) + 99) div 100
   \<and> (\<forall>i. Suc i < length (snd (buckets h keys)) \<longrightarrow> length (snd (buckets h keys) ! i) = 100)
   \<and> (\<forall>i. Suc i = length (snd (buckets h keys)) \<longrightarrow>
          0 < length (snd (buckets h keys) ! i) \<and> length (snd (buckets h keys) ! i) \<le> 100)
   \<and> length (bucketRequests (snd (getItems sched table serializer run gs h keys options)))
       = (length (arrays h keys) + 99) div 100
   \<and> (\<forall>b. map_of (optionsOf h options) ''Keys'' = None
          \<and> b < (length (arrays h keys) + 99) div 100
        \<longrightarrow> bucketRequests (snd (getItems sched table serializer run gs h keys options)) ! b
              \<noteq> []
          \<and> requestKeys
               (bucketRequests (snd (getItems sched table serializer run gs h keys options))
                  ! b ! 0)
              = map (buildKey serializer) (take 100 (drop (100 * b) (arrays h keys))))
   \<and> (length (arrays h keys) = 250 \<and> map_of (optionsOf h options) ''Keys'' = None
        \<and> (\<forall>i rq. answersInFull (tableName table) rq (fst (run (gs i) rq)))
      \<longrightarrow> map (map (\<lambda>rq. length (requestKeys rq)))
            (bucketRequests (snd (getItems sched table serializer run gs h keys options)))
            = [[100], [100], [50]]
        \<and> ((\<forall>b. b < 3 \<longrightarrow> b \<in> set sched)
           \<longrightarrow> map (map (\<lambda>c. length (requestKeys (fst c))))
                 (bucketCalls (snd (getItems sched table serializer run gs h keys options)))
                 = [[100], [100], [50]]
             \<and> inFlight (snd (getItems sched table serializer run gs h keys options))
                 = [None, None, None]
             \<and> (\<exists>items. result (snd (getItems sched table serializer run gs h keys options))
                           = Some (Inr items) \<and> length items = 250)))"
proof (intro conjI allI impI)
  show "concat (snd (buckets h keys)) = arrays h keys"
    by (simp add: buckets_chunks concat_chunks)
  show "length (snd (buckets h keys)) = (length (arrays h keys) + 99) div 100"
    by (simp add: buckets_chunks length_chunks)
  show "length (bucketRequests (snd (getItems sched table serializer run gs h keys options)))
       = (length (arrays h keys) + 99) div 100"
    by (simp add: getItems_bucketRequests length_chunks)
next
  fix i assume "Suc i < length (snd (buckets h keys))"
  then show "length (snd (buckets h keys) ! i) = 100"
    using chunks_sizes [of i "arrays h keys"] by (simp add: buckets_chunks)
next
  fix i assume "Suc i = length (snd (buckets h keys))"
  then have "i < length (chunks (arrays h keys))" by (simp add: buckets_chunks)
  from chunks_sizes [OF this]
  show "0 < length (snd (buckets h keys) ! i)" and "length (snd (buckets h keys) ! i) \<le> 100"
    by (simp_all add: buckets_chunks)
next
  fix b
  let ?rq = "buildInitialGetItemsRequest (tableName table)
         (map (buildKey serializer) (chunks (arrays h keys) ! b)) (optionsOf h options)"
  let ?L = "batchLoop (count_list sched b) run (gs b) (tableName table) (Some ?rq) []"
  assume a: "map_of (optionsOf h options) ''Keys'' = None
          \<and> b < (length (arrays h keys) + 99) div 100"
  then have c: "b < length (chunks (arrays h keys))" by (simp add: length_chunks)
  have nth: "bucketRequests (snd (getItems sched table serializer run gs h keys options)) ! b
           = sentRequests (bcalls ?L) (bpending ?L)"
    using c
    by (simp add: getItems_bucketRequests mapBuckets_nth initialBatchGetItems_bcalls
        initialBatchGetItems_bpending)
  note first = batchLoop_sent_first [of "count_list sched b" run "gs b" "tableName table" ?rq "[]"]
  show "bucketRequests (snd (getItems sched table serializer run gs h keys options)) ! b \<noteq> []"
    unfolding nth using first by blast
  have "bucketRequests (snd (getItems sched table serializer run gs h keys options)) ! b ! 0 = ?rq"
    unfolding nth using first by blast
  then show "requestKeys
               (bucketRequests (snd (getItems sched table serializer run gs h keys options))
                  ! b ! 0)
              = map (buildKey serializer) (take 100 (drop (100 * b) (arrays h keys)))"
    using a by (simp add: requestKeys_initial chunks_nth [OF c])
next
  assume a: "length (arrays h keys) = 250 \<and> map_of (optionsOf h options) ''Keys'' = None
        \<and> (\<forall>i rq. answersInFull (tableName table) rq (fst (run (gs i) rq)))"
  then have full: "\<forall>i rq. answersInFull (tableName table) rq (fst (run (gs i) rq))"
    and nokeys: "map_of (optionsOf h options) ''Keys'' = None" by blast+
  from a have sizes: "map length (chunks (arrays h keys)) = [100, 100, 50]"
    by (simp add: chunks_250)
  have "map (map (\<lambda>rq. length (requestKeys rq)))
            (bucketRequests (snd (getItems sched table serializer run gs h keys options)))
          = map (\<lambda>b. [length b]) (chunks (arrays h keys))"
    using mapBuckets_full(1) [OF full nokeys, of "count_list sched" 0 "chunks (arrays h keys)"
        serializer]
    by (simp add: getItems_bucketRequests comp_def)
  also have "\<dots> = map (\<lambda>l. [l]) (map length (chunks (arrays h keys)))" by simp
  also have "\<dots> = [[100], [100], [50]]" unfolding sizes by simp
  finally show "map (map (\<lambda>rq. length (requestKeys rq)))
            (bucketRequests (snd (getItems sched table serializer run gs h keys options)))
            = [[100], [100], [50]]" .
next
  assume a: "length (arrays h keys) = 250 \<and> map_of (optionsOf h options) ''Keys'' = None
        \<and> (\<forall>i rq. answersInFull (tableName table) rq (fst (run (gs i) rq)))"
    and s: "\<forall>b. b < 3 \<longrightarrow> b \<in> set sched"
  from a have full: "\<forall>i rq. answersInFull (tableName table) rq (fst (run (gs i) rq))"
    and nokeys: "map_of (optionsOf h options) ''Keys'' = None" by blast+
  from a have sizes: "map length (chunks (arrays h keys)) = [100, 100, 50]"
    by (simp add: chunks_250)
  then have three: "length (chunks (arrays h keys)) = 3"
    using length_map [of length "chunks (arrays h keys)"] by simp
  have "0 < count_list sched (0 + j)" if "j < length (chunks (arrays h keys))" for j
    using that s three count_list_0_iff [of sched j] by auto
  then have answered: "\<forall>j. j < length (chunks (arrays h keys)) \<longrightarrow> 0 < count_list sched (0 + j)"
    by blast
  note mb = mapBuckets_full(2) [OF full nokeys answered, of serializer]
  from mb have "map (map (\<lambda>c. length (requestKeys (fst c))))
           (bucketCalls (snd (getItems sched table serializer run gs h keys options)))
           = map (\<lambda>b. [length b]) (chunks (arrays h keys))"
    by (simp add: getItems_snd)
  also have "\<dots> = map (\<lambda>l. [l]) (map length (chunks (arrays h keys)))" by simp
  also have "\<dots> = [[100], [100], [50]]" unfolding sizes by simp
  finally show "map (map (\<lambda>c. length (requestKeys (fst c))))
            (bucketCalls (snd (getItems sched table serializer run gs h keys options)))
            = [[100], [100], [50]]" .
  from mb have "inFlight (snd (getItems sched table serializer run gs h keys options))
                 = map (\<lambda>b. None) (chunks (arrays h keys))"
    by (simp add: getItems_snd)
  also have "\<dots> = map (\<lambda>l. None) (map length (chunks (arrays h keys)))" by simp
  also have "\<dots> = [None, None, None]" unfolding sizes by simp
  finally show "inFlight (snd (getItems sched table serializer run gs h keys options))
                 = [None, None, None]" .
  from mb obtain xs where
    xs: "fulfilled (mapBuckets (count_list sched) run gs 0 (chunks (arrays h keys)) table
                      serializer (optionsOf h options)) = Some xs"
      "map length xs = map length (chunks (arrays h keys))" by auto
  have none: "firstRejection
                 (bucketOutcome run gs (chunks (arrays h keys)) table serializer
                    (optionsOf h options)) [] sched = None"
  proof (rule firstRejection_None)
    fix i k e
    have "answersInFull (tableName table)
             (buildInitialGetItemsRequest (tableName table)
                (map (buildKey serializer) (chunks (arrays h keys) ! i)) (optionsOf h options))
             (fst (run (gs i) (buildInitialGetItemsRequest (tableName table)
                (map (buildKey serializer) (chunks (arrays h keys) ! i)) (optionsOf h options))))"
      using full by blast
    from initialBatchGetItems_full(2)
      [where table=table and serializer=serializer and keys="chunks (arrays h keys) ! i"
         and opts="optionsOf h options" and run=run and g="gs i" and k=k and e=e,
       OF this nokeys]
    show "bucketOutcome run gs (chunks (arrays h keys)) table serializer (optionsOf h options)
            i k \<noteq> Some (Inl e)"
      by (simp add: bucketOutcome_def)
  qed
  have "length (concat xs) = sum_list (map length xs)" by (simp add: length_concat)
  then have "length (concat xs) = 250" unfolding xs(2) sizes by simp
  moreover have "result (snd (getItems sched table serializer run gs h keys options))
                   = Some (Inr (concat xs))"
    using xs(1) none by (simp add: getItems_snd)
  ultimately show "\<exists>items. result (snd (getItems sched table serializer run gs h keys options))
                      = Some (Inr items) \<and> length items = 250" by blast
qed

theorem getItems_buckets_witness:
  "length (arrays (exHeap [0..<250]) 0) = 250
   \<and> map_of (optionsOf (exHeap [0..<250]) (Some 1)) ''Keys'' = None
   \<and> length (snd (buckets (exHeap [0..<250]) 0)) = 3
   \<and> length (snd (buckets (exHeap [0..<250]) 0) ! 0) = 100
   \<and> 0 < length (snd (buckets (exHeap [0..<250]) 0) ! 2)
   \<and> requestKeys (bucketRequests (snd (getItems [] exTable natSerializer echoGateway (\<lambda>i. ())
                     (exHeap [0..<250]) 0 (Some 1))) ! 1 ! 0)
       = map (buildKey natSerializer) (take 100 (drop (100 * 1) (arrays (exHeap [0..<250]) 0)))
   \<and> map (map (\<lambda>rq. length (requestKeys rq)))
        (bucketRequests (snd (getItems [2, 0] exTable natSerializer echoGateway (\<lambda>i. ())
                               (exHeap [0..<250]) 0 (Some 1))))
       = [[100], [100], [50]]
   \<and> (0::nat) \<in> set [2, 0, 1] \<and> (1::nat) \<in> set [2, 0, 1] \<and> (2::nat) \<in> set [2, 0, 1]
   \<and> map (map (\<lambda>c. length (requestKeys (fst c))))
        (bucketCalls (snd (getItems [2, 0, 1] exTable natSerializer echoGateway (\<lambda>i. ())
                            (exHeap [0..<250]) 0 (Some 1))))
       = [[100], [100], [50]]
   \<and> inFlight (snd (getItems [2, 0, 1] exTable natSerializer echoGateway (\<lambda>i. ())
                       (exHeap [0..<250]) 0 (Some 1)))
       = [None, None, None]
   \<and> (\<exists>items. result (snd (getItems [2, 0, 1] exTable natSerializer echoGateway (\<lambda>i. ())
                              (exHeap [0..<250]) 0 (Some 1)))
                  = Some (Inr items) \<and> length items = 250)"
proof -
  note th = getItems_buckets [of "exHeap [0..<250]" 0 _ exTable natSerializer echoGateway
      "\<lambda>i. ()" "Some 1"]
  have len: "length (arrays (exHeap [0..<250]) 0) = 250" by (simp add: exHeap_def)
  have nokeys: "map_of (optionsOf (exHeap [0..<250]) (Some 1)) ''Keys'' = None"
    by (simp add: optionsOf_def exHeap_def)
  have full: "\<forall>i rq. answersInFull (tableName exTable) rq (fst (echoGateway ((\<lambda>i. ()) i) rq))"
    by (simp add: answersInFull_def echoGateway_def exTable_def moreKeysToProcess_def)
  have all: "\<forall>b. b < 3 \<longrightarrow> b \<in> set [2, 0, 1::nat]"
  proof (intro allI impI)
    fix b :: nat assume "b < 3"
    then have "b = 0 \<or> b = 1 \<or> b = 2" by arith
    then show "b \<in> set [2, 0, 1]" by auto
  qed
  have one: "(1::nat) < (length (arrays (exHeap [0..<250]) 0) + 99) div 100"
    unfolding len by simp
  have three: "length (snd (buckets (exHeap [0..<250]) 0)) = 3"
    using th [of "[]"] len by simp
  from th [of "[]"] three have a: "length (snd (buckets (exHeap [0..<250]) 0) ! 0) = 100"
    by simp
  from th [of "[]"] three have b: "0 < length (snd (buckets (exHeap [0..<250]) 0) ! 2)"
    by simp
  from th [of "[]"] nokeys one
  have c: "requestKeys (bucketRequests (snd (getItems [] exTable natSerializer echoGateway
                     (\<lambda>i. ()) (exHeap [0..<250]) 0 (Some 1))) ! 1 ! 0)
       = map (buildKey natSerializer) (take 100 (drop (100 * 1) (arrays (exHeap [0..<250]) 0)))"
    by blast
  from th [of "[2, 0]"] len nokeys full
  have d: "map (map (\<lambda>rq. length (requestKeys rq)))
        (bucketRequests (snd (getItems [2, 0] exTable natSerializer echoGateway (\<lambda>i. ())
                               (exHeap [0..<250]) 0 (Some 1))))
       = [[100], [100], [50]]"
    by blast
  from th [of "[2, 0, 1]"] len nokeys full all
  have e: "map (map (\<lambda>c. length (requestKeys (fst c))))
        (bucketCalls (snd (getItems [2, 0, 1] exTable natSerializer echoGateway (\<lambda>i. ())
                            (exHeap [0..<250]) 0 (Some 1))))
       = [[100], [100], [50]]
   \<and> inFlight (snd (getItems [2, 0, 1] exTable natSerializer echoGateway (\<lambda>i. ())
                       (exHeap [0..<250]) 0 (Some 1)))
       = [None, None, None]
   \<and> (\<exists>items. result (snd (getItems [2, 0, 1] exTable natSerializer echoGateway (\<lambda>i. ())
                              (exHeap [0..<250]) 0 (Some 1)))
                  = Some (Inr items) \<and> length items = 250)"
    by blast
  have mem: "(0::nat) \<in> set [2, 0, 1]" "(1::nat) \<in> set [2, 0, 1]" "(2::nat) \<in> set [2, 0, 1]"
    by simp_all
  show ?thesis using len nokeys three a b c d mem e by blast
qed

text \<open>
  Claim C5. \<open>getItems\<close> leaves the caller's array of keys and the caller's options
  object as they were: after the call the caller's references name the same contents, as
  does every reference that was in use before the call. (The partitioning works on the
  copy \<open>_.clone\<close> made; by \<open>buckets_empties_argument\<close> it would have emptied the
  caller's array.)
\<close>

theorem getItems_frame:
  assumes "keys < nextRef h"
  shows "arrays (fst (getItems sched table serializer run gs h keys options)) keys = arrays h keys
     \<and> (\<forall>r. options = Some r \<longrightarrow>
           objects (fst (getItems sched table serializer run gs h keys options)) r = objects h r)
     \<and> (\<forall>r. r < nextRef h \<longrightarrow>
           arrays (fst (getItems sched table serializer run gs h keys options)) r = arrays h r
         \<and> objects (fst (getItems sched table serializer run gs h keys options)) r = objects h r)"
  using assms by (cases options) (simp_all add: getItems_fst)

theorem getItems_frame_witness:
  "(0::nat) < nextRef (exHeap [1, 2, 3])
   \<and> arrays (fst (getItems [0] exTable natSerializer echoGateway (\<lambda>i. ())
                     (exHeap [1, 2, 3]) 0 (Some 1))) 0 = [1, 2, 3]
   \<and> objects (fst (getItems [0] exTable natSerializer echoGateway (\<lambda>i. ())
                      (exHeap [1, 2, 3]) 0 (Some 1))) 1 = []
   \<and> arrays (fst (buckets (exHeap [1, 2, 3]) 0)) 0 = []"
proof -
  have a: "(0::nat) < nextRef (exHeap [1, 2, 3])" by (simp add: exHeap_def)
  have b: "arrays (exHeap [1, 2, 3]) 0 = [1, 2, 3]" "objects (exHeap [1, 2, 3]) 1 = []"
    by (simp_all add: exHeap_def)
  from getItems_frame [OF a, of "[0]" exTable natSerializer echoGateway "\<lambda>i. ()" "Some 1"]
  show ?thesis using a b by (simp add: buckets_empties_argument)
qed

text \<open>
  Claim C10. For an empty array of keys there is no bucket, no sub-protocol is started and
  so no gateway call is made and no request is in flight, whatever the gateway would
  answer, and the result is the empty sequence of items.
\<close>

theorem getItems_empty:
  assumes "arrays h keys = []"
  shows "snd (buckets h keys) = []
     \<and> bucketCalls (snd (getItems sched table serializer run gs h keys options)) = []
     \<and> inFlight (snd (getItems sched table serializer run gs h keys options)) = []
     \<and> result (snd (getItems sched table serializer run gs h keys options)) = Some (Inr [])"
proof -
  have "firstRejection (bucketOutcome run gs [] table serializer (optionsOf h options)) [] sched
          = None"
    by (rule firstRejection_None) (simp add: bucketOutcome_def)
  then show ?thesis using assms by (simp add: buckets_chunks getItems_snd)
qed

theorem getItems_empty_witness:
  "arrays (exHeap []) 0 = []
   \<and> bucketCalls (snd (getItems [] exTable natSerializer (scripted (Inl (exError False)))
                         (\<lambda>i. []) (exHeap []) 0 None)) = []
   \<and> result (snd (getItems [] exTable natSerializer (scripted (Inl (exError False)))
                     (\<lambda>i. []) (exHeap []) 0 None)) = Some (Inr [])
   \<and> result (snd (getItems [0, 1, 0] exTable natSerializer (scripted (Inl (exError False)))
                     (\<lambda>i. []) (exHeap []) 0 None)) = Some (Inr [])"
proof -
  have a: "arrays (exHeap []) 0 = []" by (simp add: exHeap_def)
  from getItems_empty [OF a, of "[]" exTable natSerializer "scripted (Inl (exError False))"
      "\<lambda>i. []" None]
    getItems_empty [OF a, of "[0, 1, 0]" exTable natSerializer "scripted (Inl (exError False))"
      "\<lambda>i. []" None]
  show ?thesis using a by simp
qed

section \<open>Failures of the gateway\<close>

lemma batchLoop_rejected:
  "boutcome (batchLoop n run g t rq rs) = Some (Inl e) \<Longrightarrow>
   bcalls (batchLoop n run g t rq rs) \<noteq> []
   \<and> snd (last (bcalls (batchLoop n run g t rq rs))) = Inl e \<and> \<not> retryable e"
proof (induction n arbitrary: g rq rs)
  case 0
  then show ?case by (simp split: option.splits)
next
  case (Suc n)
  show ?case
  proof (cases rq)
    case None
    then show ?thesis using Suc.prems by simp
  next
    case (Some r)
    obtain a g' where run: "run g r = (a, g')" by (cases "run g r")
    show ?thesis
    proof (cases a)
      case (Inl e')
      show ?thesis
      proof (cases "retryable e'")
        case False
        then show ?thesis using Suc.prems run Inl Some by simp
      next
        case re: True
        let ?rest = "batchLoop n run g' t (Some r) rs"
        have eq: "batchLoop (Suc n) run g t rq rs = logBatchCall (r, Inl e') ?rest"
          using run Inl re Some by simp
        have "boutcome ?rest = Some (Inl e)" using Suc.prems unfolding eq by simp
        from Suc.IH [OF this] show ?thesis unfolding eq by simp
      qed
    next
      case (Inr resp)
      let ?rest = "batchLoop n run g' t (nextRequest resp) (rs @ [resp])"
      have eq: "batchLoop (Suc n) run g t rq rs = logBatchCall (r, Inr resp) ?rest"
        using run Inr Some by simp
      have "boutcome ?rest = Some (Inl e)" using Suc.prems unfolding eq by simp
      from Suc.IH [OF this] show ?thesis unfolding eq by simp
    qed
  qed
qed

lemma fatalIn_iff:
  "fatalIn cs = (\<exists>i q e. i < length cs \<and> cs ! i = (q, Inl e) \<and> \<not> retryable e)"
proof
  assume "fatalIn cs"
  then obtain c where c: "c \<in> set cs" "case snd c of Inl e \<Rightarrow> \<not> retryable e | Inr r \<Rightarrow> False"
    by (auto simp add: fatalIn_def list_ex_iff)
  then obtain e where e: "snd c = Inl e" "\<not> retryable e" by (cases "snd c") simp_all
  from c(1) obtain i where i: "i < length cs" "cs ! i = c" by (auto simp add: in_set_conv_nth)
  have "cs ! i = (fst c, Inl e)" using i(2) e(1) by (simp add: prod_eq_iff)
  with i(1) e(2) show "\<exists>i q e. i < length cs \<and> cs ! i = (q, Inl e) \<and> \<not> retryable e" by blast
next
  assume "\<exists>i q e. i < length cs \<and> cs ! i = (q, Inl e) \<and> \<not> retryable e"
  then obtain i q e where i: "i < length cs" "cs ! i = (q, Inl e)" "\<not> retryable e" by blast
  then have "(q, Inl e) \<in> set cs" by (metis nth_mem)
  then show "fatalIn cs" using i(3) by (force simp add: fatalIn_def list_ex_iff)
qed

text \<open>
  A sub-protocol is rejected exactly when its last call failed with an error that is not
  retryable, and exactly when any of its calls did.
\<close>

lemma batchLoop_last_fatal:
  "(boutcome (batchLoop n run g t rq rs) = Some (Inl e))
     = (bcalls (batchLoop n run g t rq rs) \<noteq> []
        \<and> (\<exists>q. last (bcalls (batchLoop n run g t rq rs)) = (q, Inl e)) \<and> \<not> retryable e)"
proof
  assume "boutcome (batchLoop n run g t rq rs) = Some (Inl e)"
  from batchLoop_rejected [OF this]
  show "bcalls (batchLoop n run g t rq rs) \<noteq> []
        \<and> (\<exists>q. last (bcalls (batchLoop n run g t rq rs)) = (q, Inl e)) \<and> \<not> retryable e"
    by (auto simp add: prod_eq_iff)
next
  let ?cs = "bcalls (batchLoop n run g t rq rs)"
  assume a: "?cs \<noteq> [] \<and> (\<exists>q. last ?cs = (q, Inl e)) \<and> \<not> retryable e"
  then obtain q where q: "last ?cs = (q, Inl e)" by blast
  from a have i: "length ?cs - 1 < length ?cs" by simp
  have "?cs ! (length ?cs - 1) = (q, Inl e)" using a q by (simp add: last_conv_nth)
  from batchLoop_sent [OF i this] a
  show "boutcome (batchLoop n run g t rq rs) = Some (Inl e)" by blast
qed

lemma batchLoop_fatal:
  "fatalIn (bcalls (batchLoop n run g t rq rs))
     = (\<exists>e. boutcome (batchLoop n run g t rq rs) = Some (Inl e))"
proof
  assume "fatalIn (bcalls (batchLoop n run g t rq rs))"
  then obtain i q e where i: "i < length (bcalls (batchLoop n run g t rq rs))"
    "bcalls (batchLoop n run g t rq rs) ! i = (q, Inl e)" "\<not> retryable e"
    unfolding fatalIn_iff by blast
  from batchLoop_sent [OF i(1,2)] i(3)
  show "\<exists>e. boutcome (batchLoop n run g t rq rs) = Some (Inl e)" by blast
next
  assume "\<exists>e. boutcome (batchLoop n run g t rq rs) = Some (Inl e)"
  then obtain e where e: "boutcome (batchLoop n run g t rq rs) = Some (Inl e)" by blast
  let ?cs = "bcalls (batchLoop n run g t rq rs)"
  from e obtain q where q: "?cs \<noteq> []" "last ?cs = (q, Inl e)" "\<not> retryable e"
    unfolding batchLoop_last_fatal by blast
  then have "length ?cs - 1 < length ?cs" "?cs ! (length ?cs - 1) = (q, Inl e)"
    by (simp_all add: last_conv_nth)
  with q(3) show "fatalIn ?cs" unfolding fatalIn_iff by blast
qed

text \<open>The same, for the buckets of \<open>getItems\<close>.\<close>

lemma bucketOutcome_rejected:
  "(bucketOutcome run gs bs table serializer opts i k = Some (Inl e))
     = (i < length bs
        \<and> boutcome (batchLoop k run (gs i) (tableName table)
             (Some (buildInitialGetItemsRequest (tableName table)
                      (map (buildKey serializer) (bs ! i)) opts)) []) = Some (Inl e))"
  by (simp add: bucketOutcome_def initialBatchGetItems_rejected)

lemma bucketOutcome_mono:
  assumes "bucketOutcome run gs bs table serializer opts i k = Some (Inl e)" and "k \<le> k'"
  shows "bucketOutcome run gs bs table serializer opts i k' = Some (Inl e)"
  using assms batchLoop_stable [OF _ assms(2), of run "gs i" "tableName table"
      "Some (buildInitialGetItemsRequest (tableName table)
               (map (buildKey serializer) (bs ! i)) opts)" "[]" "Inl e"]
  unfolding bucketOutcome_rejected by simp

lemma bucketOutcome_0:
  "bucketOutcome run gs bs table serializer opts i 0 \<noteq> Some (Inl e)"
  unfolding bucketOutcome_rejected by simp

lemma getItems_fatalIn:
  assumes "b < length (chunks (arrays h keys))"
  shows "fatalIn (bucketCalls (snd (getItems s table serializer run gs h keys options)) ! b)
     = (\<exists>e. bucketOutcome run gs (chunks (arrays h keys)) table serializer (optionsOf h options)
              b (count_list s b) = Some (Inl e))"
  unfolding getItems_bucketCalls_nth [OF assms] batchLoop_fatal bucketOutcome_rejected
  using assms by simp

lemma getItems_no_failure:
  "(\<forall>i e. bucketOutcome run gs (chunks (arrays h keys)) table serializer (optionsOf h options)
            i (count_list s i) \<noteq> Some (Inl e))
     = (\<forall>b. b < length (bucketCalls (snd (getItems s table serializer run gs h keys options)))
          \<longrightarrow> \<not> fatalIn (bucketCalls (snd (getItems s table serializer run gs h keys options)) ! b))"
proof
  assume a: "\<forall>i e. bucketOutcome run gs (chunks (arrays h keys)) table serializer
                     (optionsOf h options) i (count_list s i) \<noteq> Some (Inl e)"
  show "\<forall>b. b < length (bucketCalls (snd (getItems s table serializer run gs h keys options)))
          \<longrightarrow> \<not> fatalIn (bucketCalls (snd (getItems s table serializer run gs h keys options)) ! b)"
  proof (intro allI impI)
    fix b
    assume "b < length (bucketCalls (snd (getItems s table serializer run gs h keys options)))"
    then have "b < length (chunks (arrays h keys))" by simp
    from getItems_fatalIn [OF this] a
    show "\<not> fatalIn (bucketCalls (snd (getItems s table serializer run gs h keys options)) ! b)"
      by blast
  qed
next
  assume a: "\<forall>b. b < length (bucketCalls (snd (getItems s table serializer run gs h keys options)))
          \<longrightarrow> \<not> fatalIn (bucketCalls (snd (getItems s table serializer run gs h keys options)) ! b)"
  show "\<forall>i e. bucketOutcome run gs (chunks (arrays h keys)) table serializer
                (optionsOf h options) i (count_list s i) \<noteq> Some (Inl e)"
  proof (intro allI)
    fix i e
    show "bucketOutcome run gs (chunks (arrays h keys)) table serializer
                (optionsOf h options) i (count_list s i) \<noteq> Some (Inl e)"
    proof (cases "i < length (chunks (arrays h keys))")
      case True
      then have "\<not> fatalIn (bucketCalls (snd (getItems s table serializer run gs h keys options)) ! i)"
        using a by simp
      then show ?thesis unfolding getItems_fatalIn [OF True] by blast
    next
      case False
      then show ?thesis by (simp add: bucketOutcome_def)
    qed
  qed
qed

lemma getItems_last_fatal:
  assumes "b < length (chunks (arrays h keys))"
  shows "(bucketOutcome run gs (chunks (arrays h keys)) table serializer (optionsOf h options)
            b (Suc (count_list pre b)) = Some (Inl e))
     = (bucketCalls (snd (getItems (pre @ [b]) table serializer run gs h keys options)) ! b \<noteq> []
        \<and> (\<exists>q. last (bucketCalls (snd (getItems (pre @ [b]) table serializer run gs h keys
                                          options)) ! b) = (q, Inl e))
        \<and> \<not> retryable e)"
proof -
  have c: "count_list (pre @ [b]) b = Suc (count_list pre b)" by simp
  show ?thesis
    unfolding getItems_bucketCalls_nth [OF assms] bucketOutcome_rejected c batchLoop_last_fatal
    using assms by blast
qed

text \<open>
  The rejection of \<open>Promise.map\<close>: it is the failure of the first answer, in the order
  of the schedule, that makes a bucket fail.
\<close>

lemma firstRejection_Some:
  assumes "firstRejection outcomeAfter seen sched = Some e"
    and "\<forall>i e'. outcomeAfter i (count_list seen i) \<noteq> Some (Inl e')"
  shows "\<exists>pre b post. sched = pre @ b # post
     \<and> (\<forall>i e'. outcomeAfter i (count_list (seen @ pre) i) \<noteq> Some (Inl e'))
     \<and> outcomeAfter b (Suc (count_list (seen @ pre) b)) = Some (Inl e)"
  using assms
proof (induction sched arbitrary: seen)
  case Nil
  then show ?case by simp
next
  case (Cons a sched)
  show ?case
  proof (cases "\<exists>e0. outcomeAfter a (Suc (count_list seen a)) = Some (Inl e0)")
    case True
    then obtain e0 where e0: "outcomeAfter a (Suc (count_list seen a)) = Some (Inl e0)" by blast
    then have "e0 = e" using Cons.prems(1) by simp
    then have "a # sched = [] @ a # sched
       \<and> (\<forall>i e'. outcomeAfter i (count_list (seen @ []) i) \<noteq> Some (Inl e'))
       \<and> outcomeAfter a (Suc (count_list (seen @ []) a)) = Some (Inl e)"
      using e0 Cons.prems(2) by simp
    then show ?thesis by blast
  next
    case False
    then have rest: "firstRejection outcomeAfter (seen @ [a]) sched = Some e"
      using Cons.prems(1) by (simp split: option.splits sum.splits)
    have inv: "\<forall>i e'. outcomeAfter i (count_list (seen @ [a]) i) \<noteq> Some (Inl e')"
      using False Cons.prems(2) by simp
    from Cons.IH [OF rest inv] obtain pre b post where
      p: "sched = pre @ b # post"
      "\<forall>i e'. outcomeAfter i (count_list ((seen @ [a]) @ pre) i) \<noteq> Some (Inl e')"
      "outcomeAfter b (Suc (count_list ((seen @ [a]) @ pre) b)) = Some (Inl e)"
      by blast
    then have "a # sched = (a # pre) @ b # post
       \<and> (\<forall>i e'. outcomeAfter i (count_list (seen @ a # pre) i) \<noteq> Some (Inl e'))
       \<and> outcomeAfter b (Suc (count_list (seen @ a # pre) b)) = Some (Inl e)"
      by simp
    then show ?thesis by blast
  qed
qed

lemma firstRejection_first:
  assumes "\<And>i k k' e'. outcomeAfter i k = Some (Inl e') \<Longrightarrow> k \<le> k'
             \<Longrightarrow> outcomeAfter i k' = Some (Inl e')"
    and "\<forall>i e'. outcomeAfter i (count_list (seen @ pre) i) \<noteq> Some (Inl e')"
    and "outcomeAfter b (Suc (count_list (seen @ pre) b)) = Some (Inl e)"
  shows "firstRejection outcomeAfter seen (pre @ b # post) = Some e"
  using assms(2,3)
proof (induction pre arbitrary: seen)
  case Nil
  then show ?case by simp
next
  case (Cons a pre)
  have no: "outcomeAfter a (Suc (count_list seen a)) \<noteq> Some (Inl e0)" for e0
  proof
    assume "outcomeAfter a (Suc (count_list seen a)) = Some (Inl e0)"
    moreover have "Suc (count_list seen a) \<le> count_list (seen @ a # pre) a" by simp
    ultimately have "outcomeAfter a (count_list (seen @ a # pre) a) = Some (Inl e0)"
      by (rule assms(1))
    then show False using Cons.prems(1) by blast
  qed
  have "firstRejection outcomeAfter (seen @ [a]) (pre @ b # post) = Some e"
    using Cons.IH [of "seen @ [a]"] Cons.prems by simp
  then show ?case using no by (simp split: option.splits sum.splits)
qed

lemma firstRejection_fails:
  assumes "firstRejection outcomeAfter seen sched = None"
    and "\<forall>i e'. outcomeAfter i (count_list seen i) \<noteq> Some (Inl e')"
  shows "\<forall>i e'. outcomeAfter i (count_list (seen @ sched) i) \<noteq> Some (Inl e')"
  using assms
proof (induction sched arbitrary: seen)
  case Nil
  then show ?case by simp
next
  case (Cons a sched)
  have no: "\<forall>e0. outcomeAfter a (Suc (count_list seen a)) \<noteq> Some (Inl e0)"
    using Cons.prems(1) by (auto split: option.splits sum.splits)
  then have rest: "firstRejection outcomeAfter (seen @ [a]) sched = None"
    using Cons.prems(1) by (auto split: option.splits sum.splits)
  have inv: "\<forall>i e'. outcomeAfter i (count_list (seen @ [a]) i) \<noteq> Some (Inl e')"
    using no Cons.prems(2) by simp
  from Cons.IH [OF rest inv] show ?case by simp
qed

lemma getItems_result_rejected:
  "(result (snd (getItems sched table serializer run gs h keys options)) = Some (Inl e))
     = (firstRejection
          (bucketOutcome run gs (chunks (arrays h keys)) table serializer (optionsOf h options))
          [] sched = Some e)"
  by (simp add: getItems_snd split: option.splits)

text \<open>
  Claim C6, as stated, fails for a batched call: a failure that is not retryable does not
  always reach the caller. In the batch get of two buckets below, the second bucket fails
  with \<open>B\<close> before the first bucket fails with \<open>A\<close>. The promise is rejected with
  \<open>B\<close> after two answers; the first bucket nevertheless goes on, retries, and meets
  the failure \<open>A\<close>, which is not retryable and which the caller never sees.
\<close>

theorem later_failure_is_dropped_counterexample:
  "map (map snd) (bucketCalls (exBatchFail [0, 1, 0]))
     = [[Inl (exError True), Inl (exFatal ''A'')], [Inl (exFatal ''B'')]]
   \<and> \<not> retryable (exFatal ''A'')
   \<and> exFatal ''A'' \<noteq> exFatal ''B''
   \<and> result (exBatchFail [0, 1]) = Some (Inl (exFatal ''B''))
   \<and> result (exBatchFail [0, 1, 0]) = Some (Inl (exFatal ''B''))"
  by code_simp

text \<open>
  Claim C6, amended. In a paginated call a retryable failure is followed, whenever the
  bound allows another call, by the same request, and a failure that is not retryable is
  the last call and the call is rejected with that failure. In every bucket of a batched
  call a retryable failure is followed by the same request; a failure that is not
  retryable is the bucket's last call, and then the batched call is rejected with a
  failure that is not retryable: with that very failure if no other bucket fails so. In
  general the batched call is rejected with \<open>e\<close> exactly when \<open>e\<close> is the failure
  of the first answer, in the order of arrival, that makes a bucket fail: the schedule
  is \<open>pre @ b # post\<close>, no bucket has failed after \<open>pre\<close>, and the answer to bucket
  \<open>b\<close> that comes next is the failure \<open>e\<close>, not retryable. A rejection carries no
  pages and no items.
\<close>

theorem failures_retry_or_reject:
  "(\<forall>i q err. i < length (calls (paginatedRequest A n run g o'))
        \<and> calls (paginatedRequest A n run g o') ! i = (q, Inl err)
      \<longrightarrow> (retryable err \<and> Suc i < n \<longrightarrow>
              Suc i < length (calls (paginatedRequest A n run g o'))
            \<and> fst (calls (paginatedRequest A n run g o') ! Suc i) = q)
        \<and> (\<not> retryable err \<longrightarrow>
              Suc i = length (calls (paginatedRequest A n run g o'))
            \<and> outcome (paginatedRequest A n run g o') = Some (Inl err)))
   \<and> (\<forall>b i q err.
        b < length (bucketCalls (snd (getItems sched table serializer brun gs h keys options)))
        \<and> i < length (bucketCalls (snd (getItems sched table serializer brun gs h keys options)) ! b)
        \<and> bucketCalls (snd (getItems sched table serializer brun gs h keys options)) ! b ! i
            = (q, Inl err)
      \<longrightarrow> (retryable err \<longrightarrow>
              Suc i < length (bucketRequests
                                (snd (getItems sched table serializer brun gs h keys options)) ! b)
            \<and> bucketRequests (snd (getItems sched table serializer brun gs h keys options))
                 ! b ! Suc i = q)
        \<and> (\<not> retryable err \<longrightarrow>
              Suc i = length (bucketCalls
                                (snd (getItems sched table serializer brun gs h keys options)) ! b)
            \<and> inFlight (snd (getItems sched table serializer brun gs h keys options)) ! b = None
            \<and> (\<exists>e'. result (snd (getItems sched table serializer brun gs h keys options))
                       = Some (Inl e') \<and> \<not> retryable e')
            \<and> ((\<forall>b'. b' < length (bucketCalls
                                      (snd (getItems sched table serializer brun gs h keys options)))
                      \<and> b' \<noteq> b
                    \<longrightarrow> \<not> fatalIn (bucketCalls
                                      (snd (getItems sched table serializer brun gs h keys options))
                                    ! b'))
               \<longrightarrow> result (snd (getItems sched table serializer brun gs h keys options))
                     = Some (Inl err))))
   \<and> (\<forall>e. (result (snd (getItems sched table serializer brun gs h keys options)) = Some (Inl e))
          = (\<exists>pre b post q.
               sched = pre @ b # post
               \<and> b < length (bucketCalls
                               (snd (getItems sched table serializer brun gs h keys options)))
               \<and> (\<forall>b'. b' < length (bucketCalls
                                       (snd (getItems pre table serializer brun gs h keys options)))
                     \<longrightarrow> \<not> fatalIn (bucketCalls
                                       (snd (getItems pre table serializer brun gs h keys options))
                                     ! b'))
               \<and> bucketCalls (snd (getItems (pre @ [b]) table serializer brun gs h keys options))
                    ! b \<noteq> []
               \<and> last (bucketCalls
                          (snd (getItems (pre @ [b]) table serializer brun gs h keys options)) ! b)
                   = (q, Inl e)
               \<and> \<not> retryable e))"
proof (intro conjI allI impI)
  fix i q err
  assume a: "i < length (calls (paginatedRequest A n run g o'))
        \<and> calls (paginatedRequest A n run g o') ! i = (q, Inl err)"
  note e = paginatedLoop_errors [of i A n run g o' None "[]" True q err,
      folded paginatedRequest_def]
  { assume "retryable err \<and> Suc i < n"
    with a e show "Suc i < length (calls (paginatedRequest A n run g o'))"
      and "fst (calls (paginatedRequest A n run g o') ! Suc i) = q" by blast+ }
  { assume "\<not> retryable err"
    with a e show "Suc i = length (calls (paginatedRequest A n run g o'))"
      and "outcome (paginatedRequest A n run g o') = Some (Inl err)" by blast+ }
next
  fix b i q err
  let ?G = "snd (getItems sched table serializer brun gs h keys options)"
  let ?out = "bucketOutcome brun gs (chunks (arrays h keys)) table serializer (optionsOf h options)"
  let ?L = "batchLoop (count_list sched b) brun (gs b) (tableName table)
         (Some (buildInitialGetItemsRequest (tableName table)
                  (map (buildKey serializer) (chunks (arrays h keys) ! b))
                  (optionsOf h options))) []"
  assume a: "b < length (bucketCalls ?G) \<and> i < length (bucketCalls ?G ! b)
        \<and> bucketCalls ?G ! b ! i = (q, Inl err)"
  then have b: "b < length (chunks (arrays h keys))" by simp
  note nth = getItems_bucketCalls_nth [OF b, of sched table serializer brun gs options]
  note pnd = getItems_inFlight_nth [OF b, of sched table serializer brun gs options]
  have req: "bucketRequests ?G ! b = sentRequests (bcalls ?L) (bpending ?L)"
    using b
    by (simp add: getItems_bucketRequests mapBuckets_nth initialBatchGetItems_bcalls
        initialBatchGetItems_bpending)
  from a have "i < length (bcalls ?L)" "bcalls ?L ! i = (q, Inl err)"
    unfolding nth by blast+
  note sent = batchLoop_sent [OF this]
  { assume "retryable err"
    with sent show "Suc i < length (bucketRequests ?G ! b)"
      and "bucketRequests ?G ! b ! Suc i = q" unfolding req by blast+ }
  { assume f: "\<not> retryable err"
    with sent show "Suc i = length (bucketCalls ?G ! b)" unfolding nth by blast
    from f sent show "inFlight ?G ! b = None" unfolding pnd by blast
    from f sent have "boutcome ?L = Some (Inl err)" by blast
    then have outb: "?out b (count_list sched b) = Some (Inl err)"
      unfolding bucketOutcome_rejected using b by simp
    have inv0: "\<forall>i e'. ?out i (count_list [] i) \<noteq> Some (Inl e')"
      by (simp add: bucketOutcome_0)
    have "firstRejection ?out [] sched \<noteq> None"
    proof
      assume "firstRejection ?out [] sched = None"
      from firstRejection_fails [OF this inv0] outb show False by simp
    qed
    then obtain e' where e': "firstRejection ?out [] sched = Some e'" by blast
    then have res: "result ?G = Some (Inl e')" unfolding getItems_result_rejected .
    from firstRejection_Some [OF e' inv0] obtain pre b2 post where
      p: "sched = pre @ b2 # post" "?out b2 (Suc (count_list pre b2)) = Some (Inl e')"
      by auto
    from p(2) have b2: "b2 < length (chunks (arrays h keys))"
      unfolding bucketOutcome_rejected by blast
    from p(2) have "\<not> retryable e'"
      unfolding bucketOutcome_rejected batchLoop_last_fatal by blast
    with res show "\<exists>e'. result ?G = Some (Inl e') \<and> \<not> retryable e'" by blast
    { assume only: "\<forall>b'. b' < length (bucketCalls ?G) \<and> b' \<noteq> b
                      \<longrightarrow> \<not> fatalIn (bucketCalls ?G ! b')"
      have "Suc (count_list pre b2) \<le> count_list sched b2" unfolding p(1) by simp
      from bucketOutcome_mono [OF p(2) this]
      have out2: "?out b2 (count_list sched b2) = Some (Inl e')" .
      then have "fatalIn (bucketCalls ?G ! b2)" unfolding getItems_fatalIn [OF b2] by blast
      with only b2 have "b2 = b" by auto
      with out2 outb have "e' = err" by simp
      with res show "result ?G = Some (Inl err)" by simp }
  }
next
  fix e
  let ?G = "snd (getItems sched table serializer brun gs h keys options)"
  let ?out = "bucketOutcome brun gs (chunks (arrays h keys)) table serializer (optionsOf h options)"
  have inv0: "\<forall>i e'. ?out i (count_list [] i) \<noteq> Some (Inl e')"
    by (simp add: bucketOutcome_0)
  show "(result ?G = Some (Inl e))
          = (\<exists>pre b post q.
               sched = pre @ b # post
               \<and> b < length (bucketCalls ?G)
               \<and> (\<forall>b'. b' < length (bucketCalls
                                       (snd (getItems pre table serializer brun gs h keys options)))
                     \<longrightarrow> \<not> fatalIn (bucketCalls
                                       (snd (getItems pre table serializer brun gs h keys options))
                                     ! b'))
               \<and> bucketCalls (snd (getItems (pre @ [b]) table serializer brun gs h keys options))
                    ! b \<noteq> []
               \<and> last (bucketCalls
                          (snd (getItems (pre @ [b]) table serializer brun gs h keys options)) ! b)
                   = (q, Inl e)
               \<and> \<not> retryable e)"
  proof
    assume "result ?G = Some (Inl e)"
    then have "firstRejection ?out [] sched = Some e" unfolding getItems_result_rejected .
    from firstRejection_Some [OF this inv0] obtain pre b post where
      p: "sched = pre @ b # post"
      "\<forall>i e'. ?out i (count_list pre i) \<noteq> Some (Inl e')"
      "?out b (Suc (count_list pre b)) = Some (Inl e)"
      by auto
    from p(3) have b: "b < length (chunks (arrays h keys))"
      unfolding bucketOutcome_rejected by blast
    from p(3) obtain q where
      l: "bucketCalls (snd (getItems (pre @ [b]) table serializer brun gs h keys options)) ! b \<noteq> []"
      "last (bucketCalls (snd (getItems (pre @ [b]) table serializer brun gs h keys options)) ! b)
         = (q, Inl e)"
      "\<not> retryable e"
      unfolding getItems_last_fatal [OF b] by blast
    from p(2) have
      "\<forall>b'. b' < length (bucketCalls (snd (getItems pre table serializer brun gs h keys options)))
         \<longrightarrow> \<not> fatalIn (bucketCalls (snd (getItems pre table serializer brun gs h keys options))
                          ! b')"
      unfolding getItems_no_failure .
    with p(1) b l show "\<exists>pre b post q.
               sched = pre @ b # post
               \<and> b < length (bucketCalls ?G)
               \<and> (\<forall>b'. b' < length (bucketCalls
                                       (snd (getItems pre table serializer brun gs h keys options)))
                     \<longrightarrow> \<not> fatalIn (bucketCalls
                                       (snd (getItems pre table serializer brun gs h keys options))
                                     ! b'))
               \<and> bucketCalls (snd (getItems (pre @ [b]) table serializer brun gs h keys options))
                    ! b \<noteq> []
               \<and> last (bucketCalls
                          (snd (getItems (pre @ [b]) table serializer brun gs h keys options)) ! b)
                   = (q, Inl e)
               \<and> \<not> retryable e"
      by (simp del: getItems_lengths add: getItems_lengths(1)) blast
  next
    assume "\<exists>pre b post q.
               sched = pre @ b # post
               \<and> b < length (bucketCalls ?G)
               \<and> (\<forall>b'. b' < length (bucketCalls
                                       (snd (getItems pre table serializer brun gs h keys options)))
                     \<longrightarrow> \<not> fatalIn (bucketCalls
                                       (snd (getItems pre table serializer brun gs h keys options))
                                     ! b'))
               \<and> bucketCalls (snd (getItems (pre @ [b]) table serializer brun gs h keys options))
                    ! b \<noteq> []
               \<and> last (bucketCalls
                          (snd (getItems (pre @ [b]) table serializer brun gs h keys options)) ! b)
                   = (q, Inl e)
               \<and> \<not> retryable e"
    then obtain pre b post q where
      p: "sched = pre @ b # post" "b < length (bucketCalls ?G)"
      "\<forall>b'. b' < length (bucketCalls (snd (getItems pre table serializer brun gs h keys options)))
         \<longrightarrow> \<not> fatalIn (bucketCalls (snd (getItems pre table serializer brun gs h keys options))
                          ! b')"
      "bucketCalls (snd (getItems (pre @ [b]) table serializer brun gs h keys options)) ! b \<noteq> []"
      "last (bucketCalls (snd (getItems (pre @ [b]) table serializer brun gs h keys options)) ! b)
         = (q, Inl e)"
      "\<not> retryable e"
      by blast
    from p(2) have b: "b < length (chunks (arrays h keys))" by simp
    from p(4,5,6) have o: "?out b (Suc (count_list ([] @ pre) b)) = Some (Inl e)"
      unfolding getItems_last_fatal [OF b] by simp
    from p(3) have inv: "\<forall>i e'. ?out i (count_list ([] @ pre) i) \<noteq> Some (Inl e')"
      unfolding getItems_no_failure by simp
    have "firstRejection ?out [] (pre @ b # post) = Some e"
      by (rule firstRejection_first [OF bucketOutcome_mono inv o])
    then show "result ?G = Some (Inl e)" unfolding getItems_result_rejected p(1) .
  qed
qed

theorem failures_retry_or_reject_witness:
  "calls exFailRun ! 0 = (buildRequest (exOp True), Inl (exError True))
   \<and> fst (calls exFailRun ! Suc 0) = buildRequest (exOp True)
   \<and> calls exFailRun ! 1 = (buildRequest (exOp True), Inl (exError False))
   \<and> Suc 1 = length (calls exFailRun)
   \<and> outcome exFailRun = Some (Inl (exError False))
   \<and> snd (bucketCalls (exBatchFail [0, 1, 0]) ! 0 ! 0) = Inl (exError True)
   \<and> bucketRequests (exBatchFail [0, 1, 0]) ! 0 ! Suc 0
       = fst (bucketCalls (exBatchFail [0, 1, 0]) ! 0 ! 0)
   \<and> snd (bucketCalls (exBatchFail [0, 1, 0]) ! 0 ! 1) = Inl (exFatal ''A'')
   \<and> Suc 1 = length (bucketCalls (exBatchFail [0, 1, 0]) ! 0)
   \<and> inFlight (exBatchFail [0, 1, 0]) ! 0 = None
   \<and> snd (bucketCalls (exBatchFail [0, 0]) ! 0 ! 1) = Inl (exFatal ''A'')
   \<and> \<not> fatalIn (bucketCalls (exBatchFail [0, 0]) ! 1)
   \<and> result (exBatchFail [0, 0]) = Some (Inl (exFatal ''A''))
   \<and> \<not> fatalIn (bucketCalls (exBatchFail [0]) ! 0)
   \<and> \<not> fatalIn (bucketCalls (exBatchFail [0]) ! 1)
   \<and> snd (last (bucketCalls (exBatchFail ([0] @ [1])) ! 1)) = Inl (exFatal ''B'')
   \<and> result (exBatchFail [0, 1, 0]) = Some (Inl (exFatal ''B''))"
proof -
  note th = failures_retry_or_reject
    [of exactArith 5 "scripted (Inl (exError False))" "[Inl (exError True), Inl (exError False)]"
       "exOp True" _ exTable natSerializer "scripted (Inl (exError False))"
       "\<lambda>i. if i = 0 then [Inl (exError True), Inl (exFatal ''A'')] else [Inl (exFatal ''B'')]"
       "exHeap (replicate 101 0)" 0 "Some 1",
     folded exFailRun_def exBatchFail_def]
  let ?q = "buildRequest (exOp True)"
  have r: "retryable (exError True)" "\<not> retryable (exError False)" "Suc 0 < (5::nat)"
    "\<not> retryable (exFatal ''A'')" "\<not> retryable (exFatal ''B'')"
    by (simp_all add: exError_def exFatal_def)
  have p0: "0 < length (calls exFailRun)" by code_simp
  have c1: "calls exFailRun ! 0 = (?q, Inl (exError True))" by code_simp
  have p1: "1 < length (calls exFailRun)" by code_simp
  have c3: "calls exFailRun ! 1 = (?q, Inl (exError False))" by code_simp
  note pag = th [of "[]", THEN conjunct1, rule_format]
  from pag [of 0 ?q "exError True"] p0 c1 r
  have c2: "fst (calls exFailRun ! Suc 0) = ?q" by blast
  from pag [of 1 ?q "exError False"] p1 c3 r
  have c4: "Suc 1 = length (calls exFailRun)"
    and c5: "outcome exFailRun = Some (Inl (exError False))" by blast+
  let ?E = "exBatchFail [0, 1, 0]"
  let ?c0 = "bucketCalls ?E ! 0 ! 0"
  let ?c1 = "bucketCalls ?E ! 0 ! 1"
  have c6: "snd ?c0 = Inl (exError True)" by code_simp
  have c8: "snd ?c1 = Inl (exFatal ''A'')" by code_simp
  have q0: "?c0 = (fst ?c0, Inl (exError True))" by (simp only: prod_eq_iff fst_conv snd_conv c6)
  have q1: "?c1 = (fst ?c1, Inl (exFatal ''A''))" by (simp only: prod_eq_iff fst_conv snd_conv c8)
  have l: "0 < length (bucketCalls ?E)" "0 < length (bucketCalls ?E ! 0)"
    "1 < length (bucketCalls ?E ! 0)"
    by code_simp+
  note bat = th [of "[0, 1, 0]", THEN conjunct2, THEN conjunct1, rule_format]
  from bat [of 0 0 "fst ?c0" "exError True"] l(1,2) q0 r(1)
  have c7: "bucketRequests ?E ! 0 ! Suc 0 = fst ?c0" by blast
  from bat [of 0 1 "fst ?c1" "exFatal ''A''"] l(1,3) q1 r(4)
  have c9: "Suc 1 = length (bucketCalls ?E ! 0)"
    and c10: "inFlight ?E ! 0 = None" by blast+
  let ?F = "exBatchFail [0, 0]"
  let ?d1 = "bucketCalls ?F ! 0 ! 1"
  have d8: "snd ?d1 = Inl (exFatal ''A'')" by code_simp
  have dq: "?d1 = (fst ?d1, Inl (exFatal ''A''))" by (simp only: prod_eq_iff fst_conv snd_conv d8)
  have dl: "0 < length (bucketCalls ?F)" "1 < length (bucketCalls ?F ! 0)"
    "length (bucketCalls ?F) = 2"
    by code_simp+
  have dn: "\<not> fatalIn (bucketCalls ?F ! 1)" by code_simp
  have only: "\<forall>b'. b' < length (bucketCalls ?F) \<and> b' \<noteq> 0 \<longrightarrow> \<not> fatalIn (bucketCalls ?F ! b')"
  proof (intro allI impI)
    fix b' assume "b' < length (bucketCalls ?F) \<and> b' \<noteq> 0"
    then have "b' = 1" unfolding dl(3) by arith
    then show "\<not> fatalIn (bucketCalls ?F ! b')" using dn by simp
  qed
  note bat2 = th [of "[0, 0]", THEN conjunct2, THEN conjunct1, rule_format]
  from bat2 [of 0 1 "fst ?d1" "exFatal ''A''"] dl(1,2) dq r(4) only
  have c11: "result ?F = Some (Inl (exFatal ''A''))" by blast
  let ?P = "exBatchFail [0]"
  have pl: "length (bucketCalls ?P) = 2" by code_simp
  have pn: "\<not> fatalIn (bucketCalls ?P ! 0)" "\<not> fatalIn (bucketCalls ?P ! 1)" by code_simp+
  have none: "\<forall>b'. b' < length (bucketCalls ?P) \<longrightarrow> \<not> fatalIn (bucketCalls ?P ! b')"
  proof (intro allI impI)
    fix b' assume "b' < length (bucketCalls ?P)"
    then have "b' = 0 \<or> b' = 1" unfolding pl by arith
    then show "\<not> fatalIn (bucketCalls ?P ! b')" using pn by auto
  qed
  let ?l = "last (bucketCalls (exBatchFail ([0] @ [1])) ! 1)"
  have ne: "bucketCalls (exBatchFail ([0] @ [1])) ! 1 \<noteq> []" by code_simp
  have ls: "snd ?l = Inl (exFatal ''B'')" by code_simp
  have lq: "?l = (fst ?l, Inl (exFatal ''B''))" by (simp only: prod_eq_iff fst_conv snd_conv ls)
  have split: "[0, 1, 0] = [0] @ 1 # [0::nat]" by simp
  have l1: "1 < length (bucketCalls ?E)" by code_simp
  note fst = th [of "[0, 1, 0]", THEN conjunct2, THEN conjunct2, rule_format,
      of "exFatal ''B''", THEN iffD2]
  have c12: "result ?E = Some (Inl (exFatal ''B''))"
    by (rule fst, rule exI [of _ "[0]"], rule exI [of _ 1], rule exI [of _ "[0]"],
        rule exI [of _ "fst ?l"])
       (use split l1 none ne lq r(5) in blast)
  from c1 c2 c3 c4 c5 c6 c7 c8 c9 c10 d8 dn c11 pn ls c12 show ?thesis by blast
qed


end
